theory Spec2Isabelle
  imports Complex_Main "HOL-Library.AList" "HOL-Library.Char_ord" "HOL-Library.List_Lexorder"
begin

section \<open>Data model (types.ts)\<close>

text \<open>
  JavaScript numbers that hold seconds, counts and sequence numbers are modelled as
  integers (\<open>int\<close>) or naturals (\<open>nat\<close>, for counters that only grow from zero);
  averages and percentages, which the source obtains by division, are exact rationals.
  Record fields carry a short prefix because several interfaces share the field names
  \<open>id\<close>, \<open>name\<close> and \<open>groupId\<close>.
\<close>

record athlete =
  athlete_id :: string
  athlete_name :: string
  athlete_groupId :: string

record match =
  match_id :: string
  match_groupId :: string
  match_athlete1Id :: string
  match_athlete2Id :: string
  match_cycle :: nat

record round =
  roundNumber :: nat
  round_groupId :: string
  matches :: "match list"

record "group" =
  group_id :: string
  group_name :: string
  group_areaId :: string
  athletes :: "athlete list"

record area =
  area_id :: string
  area_name :: string
  groups :: "group list"

record event =
  event_id :: string
  event_name :: string
  event_date :: string
  fightDuration :: int
  rotationTime :: int
  startTime :: string
  endTime :: string
  areas :: "area list"
  minRestBetweenFightsSeconds :: "int option"
  createdAt :: "string option"
  updatedAt :: "string option"

text \<open>
  The optional \<open>result\<close> of a schedule entry is attached by the result-entry screens
  and never by the scheduler; it is left out.
\<close>

record schedule_entry =
  entry_id :: string
  entry_areaId :: string
  entry_groupId :: string
  matchId :: string
  sequenceNumber :: nat
  scheduledTime :: string
  startTimeSeconds :: int
  endTimeSeconds :: int
  athlete1Id :: string
  athlete2Id :: string
  athlete1Name :: string
  athlete2Name :: string
  entry_roundNumber :: "nat option"

datatype warning_type = TIME_OVERFLOW | REST_VIOLATION | CONSECUTIVE_MATCHES | INFO

datatype severity = Sev_error | Sev_warning | Sev_info

text \<open>
  The message and the suggestion of a warning are display texts built from fixed
  templates. Each template is a constructor that keeps the values the source
  interpolates into it; the wording itself is not reproduced.
\<close>

datatype message =
    Msg_insufficient_time
  | Msg_no_group_with_two_athletes string
  | Msg_rest_violation string int int int
  | Msg_equity nat nat nat
  | Msg_low_completeness rat

datatype suggestion =
    Sug_extend_event_or_shorten_fights
  | Sug_more_rotation_or_reorder_rounds
  | Sug_extend_event_or_shrink_groups
  | Sug_extend_event

record warning =
  warning_type :: warning_type
  warning_severity :: severity
  warning_message :: message
  affectedItems :: "string list"
  warning_suggestion :: "suggestion option"

record athlete_stats =
  stats_athleteId :: string
  stats_athleteName :: string
  stats_groupId :: string
  stats_groupName :: string
  stats_matchCount :: nat
  minRestSeconds :: int
  maxRestSeconds :: int
  avgRestSeconds :: rat
  totalRestSeconds :: int
  consecutiveMatchesCount :: nat

record area_stats =
  areastats_areaId :: string
  areastats_areaName :: string
  areastats_matchCount :: nat
  duration :: int
  marginOrOverflow :: int

record group_time_boxed_stats =
  gtb_groupId :: string
  gtb_groupName :: string
  athleteCount :: nat
  gtb_totalMatches :: nat
  theoreticalMax :: nat
  completenessPercentage :: rat
  gtb_minMatchesPerAthlete :: nat
  gtb_maxMatchesPerAthlete :: nat
  gtb_avgMatchesPerAthlete :: rat
  gtb_matchCountGap :: nat

record time_boxed_stats =
  minMatchesPerAthlete :: nat
  maxMatchesPerAthlete :: nat
  avgMatchesPerAthlete :: rat
  matchCountGap :: nat
  groupStats :: "group_time_boxed_stats list"
  totalMatchesScheduled :: nat
  totalTheoreticalMatches :: nat
  overallCompletenessPercentage :: rat
  rematchesCount :: nat
  timeUsedSeconds :: int
  timeAvailableSeconds :: int
  timeUtilizationPercentage :: rat

record schedule_stats =
  stats_totalMatches :: nat
  totalDuration :: int
  areaStats :: "area_stats list"
  athleteStats :: "athlete_stats list"
  timeBoxedStats :: "time_boxed_stats option"

record schedule =
  schedule_eventId :: string
  entries :: "schedule_entry list"
  stats :: schedule_stats
  schedule_warnings :: "warning list"

text \<open>What \<open>generateTimeBoxedSchedule\<close> returns: the schedule and the warnings.\<close>

record generated =
  generated_schedule :: schedule
  generated_warnings :: "warning list"

text \<open>
  Transient scheduling state. A JavaScript \<open>Map\<close> is an association list in insertion
  order (\<open>AList.update\<close> overwrites a present key in place and appends a new one, as
  \<open>Map.set\<close> does); every state object is reachable through its key only, so updating
  the entry of a key is the mutation of the object.
\<close>

record athlete_state =
  state_athleteId :: string
  matchCount :: nat
  opponents :: "string set"
  lastMatchEndTime :: int
  availableAt :: int

record group_state =
  state_groupId :: string
  athleteStates :: "(string \<times> athlete_state) list"
  totalMatches :: nat
  lastScheduledTime :: int

text \<open>The exceptions the scheduler can raise.\<close>

datatype error =
    Invalid_time_format string
  | TypeError

section \<open>Utilities (utils.ts)\<close>

text \<open>
  \<open>generateId\<close> reads the wall clock and the random generator. Both are inputs of the
  model: an id source gives, for the k-th call of a run, the text of \<open>Date.now()\<close> and
  the nine characters taken from \<open>Math.random().toString(36)\<close>. The call counter is
  threaded through every function that generates ids.
\<close>

type_synonym idsrc = "nat \<Rightarrow> string \<times> string"

definition generateId :: "idsrc \<Rightarrow> nat \<Rightarrow> string \<Rightarrow> string" where
  "generateId src k prefix = prefix @ ''_'' @ fst (src k) @ ''_'' @ snd (src k)"

text \<open>
  Number to text, as template literals and \<open>String(...)\<close> do it for an integer:
  the decimal digits, most significant first, after a minus sign when negative.
\<close>

definition digit_char :: "nat \<Rightarrow> char" where
  "digit_char d = char_of (of_char (CHR ''0'') + d)"

fun decimal :: "nat \<Rightarrow> string" where
  "decimal n =
     (let d = digit_char (n mod 10)
      in if n div 10 = 0 then [d] else decimal (n div 10) @ [d])"

definition number_text :: "int \<Rightarrow> string" where
  "number_text x = (if 0 \<le> x then decimal (nat x) else CHR ''-'' # decimal (nat (- x)))"

text \<open>
  The remainder operator \<open>%\<close> on integers: the sign of the result is the sign of the
  dividend. \<open>Math.floor(a / b)\<close> for a positive \<open>b\<close> is \<open>div\<close>.
\<close>

definition js_rem :: "int \<Rightarrow> int \<Rightarrow> int" where
  "js_rem a b = sgn a * (\<bar>a\<bar> mod \<bar>b\<bar>)"

text \<open>\<open>time.split(':')\<close>: the pieces between the separators, at least one piece.\<close>

fun split_on :: "char \<Rightarrow> string \<Rightarrow> string list" where
  "split_on c [] = [[]]"
| "split_on c (x # xs) =
     (if x = c then [] # split_on c xs
      else (case split_on c xs of [] \<Rightarrow> [[x]] | piece # pieces \<Rightarrow> (x # piece) # pieces))"

text \<open>
  \<open>parseTime\<close>. The builtin \<open>Number\<close> is a parameter: it gives the integer read from a
  piece, or \<open>None\<close> where the builtin gives \<open>NaN\<close>. A missing second piece is
  \<open>undefined\<close>, which \<open>isNaN\<close> rejects as well.
\<close>

definition parseTime :: "(string \<Rightarrow> int option) \<Rightarrow> string \<Rightarrow> error + int" where
  "parseTime num time =
     (case map num (split_on CHR '':'' time) of
        Some h # Some m # _ \<Rightarrow> Inr (h * 3600 + m * 60)
      | _ \<Rightarrow> Inl (Invalid_time_format time))"

definition padStart2 :: "string \<Rightarrow> string" where
  "padStart2 s = replicate (2 - length s) CHR ''0'' @ s"

definition formatTime :: "int \<Rightarrow> string" where
  "formatTime seconds =
     (let h = seconds div 3600;
          m = js_rem seconds 3600 div 60
      in padStart2 (number_text h) @ '':'' @ padStart2 (number_text m))"

definition combinations :: "nat \<Rightarrow> nat" where
  "combinations n = (if n < 2 then 0 else (n * (n - 1)) div 2)"

text \<open>
  \<open>xs.length > 0 ? Math.min(...xs) : 0\<close> and its counterpart for the maximum, as the
  statistics functions write them.
\<close>

definition min_or_zero :: "'a::{linorder,zero} list \<Rightarrow> 'a" where
  "min_or_zero xs = (case xs of [] \<Rightarrow> 0 | x # ys \<Rightarrow> fold min ys x)"

definition max_or_zero :: "'a::{linorder,zero} list \<Rightarrow> 'a" where
  "max_or_zero xs = (case xs of [] \<Rightarrow> 0 | x # ys \<Rightarrow> fold max ys x)"

section \<open>Pairing generator (scheduler.ts, generateRoundsForGroup)\<close>

text \<open>The placeholder pushed onto the participants when the roster is odd.\<close>

definition bye :: "string \<Rightarrow> athlete" where
  "bye groupId = \<lparr>athlete_id = ''BYE'', athlete_name = ''BYE'', athlete_groupId = groupId\<rparr>"

text \<open>
  \<open>indexes.splice(1, 0, indexes.pop()!)\<close>: the last element is removed and inserted
  after the first one. The list is never empty where the source calls it (there are at
  least two participants); on the empty list the equation below is never used.
\<close>

fun rotate_indexes :: "nat list \<Rightarrow> nat list" where
  "rotate_indexes [] = []"
| "rotate_indexes (x # xs) = (if xs = [] then [x] else x # last xs # butlast xs)"

text \<open>
  One pass of the innermost loop (index \<open>i\<close>): the accumulator is the list of matches
  of the round so far and the id counter.
\<close>

definition match_step ::
  "idsrc \<Rightarrow> athlete list \<Rightarrow> nat list \<Rightarrow> string \<Rightarrow> nat \<Rightarrow> nat \<Rightarrow> nat \<Rightarrow>
   match list \<times> nat \<Rightarrow> match list \<times> nat" where
  "match_step src participants indexes groupId cycle rnd i acc =
     (let homeIdx = indexes ! i;
          awayIdx = indexes ! (length participants - 1 - i);
          home = participants ! homeIdx;
          away = participants ! awayIdx
      in if athlete_id home = ''BYE'' \<or> athlete_id away = ''BYE'' then acc
         else (fst acc @
                 [\<lparr>match_id = generateId src (snd acc)
                      (''match_'' @ groupId @ ''_c'' @ decimal cycle @ ''_r'' @ decimal rnd),
                   match_groupId = groupId,
                   match_athlete1Id = athlete_id home,
                   match_athlete2Id = athlete_id away,
                   match_cycle = cycle\<rparr>],
               Suc (snd acc)))"

text \<open>
  One pass of the loop over rounds: the state is the list of rounds so far, the
  circular index list and the id counter.
\<close>

definition round_step ::
  "idsrc \<Rightarrow> athlete list \<Rightarrow> string \<Rightarrow> nat \<Rightarrow> nat \<Rightarrow>
   round list \<times> nat list \<times> nat \<Rightarrow> round list \<times> nat list \<times> nat" where
  "round_step src participants groupId cycle rnd st =
     (case st of (rounds, indexes, k) \<Rightarrow>
        (let numRounds = length participants - 1;
             halfSize = length participants div 2;
             acc = fold (match_step src participants indexes groupId cycle rnd) [0..<halfSize] ([], k)
         in (rounds @
               [\<lparr>roundNumber = (cycle - 1) * numRounds + rnd + 1,
                 round_groupId = groupId,
                 matches = fst acc\<rparr>],
             rotate_indexes indexes,
             snd acc)))"

definition participants_of :: "athlete list \<Rightarrow> string \<Rightarrow> athlete list" where
  "participants_of roster groupId =
     (if length roster mod 2 = 1 then roster @ [bye groupId] else roster)"

definition generateRoundsForGroup ::
  "idsrc \<Rightarrow> nat \<Rightarrow> athlete list \<Rightarrow> string \<Rightarrow> nat \<Rightarrow> round list" where
  "generateRoundsForGroup src k roster groupId cyclesPerGroup =
     (if length roster < 2 then []
      else
        (let participants = participants_of roster groupId;
             numRounds = length participants - 1
         in fst (fold (\<lambda>cycle st.
                         fold (round_step src participants groupId cycle) [0..<numRounds] st)
                   [1..<Suc cyclesPerGroup]
                   ([], [0..<length participants], k))))"

section \<open>Rest validation and athlete statistics (scheduler.ts)\<close>

definition involves :: "string \<Rightarrow> schedule_entry \<Rightarrow> bool" where
  "involves a e = (athlete1Id e = a \<or> athlete2Id e = a)"

text \<open>
  The matches of an athlete, sorted by start time. \<open>Array.prototype.sort\<close> is stable, and
  so is \<open>sort_key\<close>.
\<close>

definition athleteMatches :: "schedule_entry list \<Rightarrow> athlete \<Rightarrow> schedule_entry list" where
  "athleteMatches es a = sort_key startTimeSeconds (filter (involves (athlete_id a)) es)"

text \<open>The loop \<open>for (i = 1; i < athleteMatches.length; i++)\<close> over consecutive matches.\<close>

fun consecutive :: "'a list \<Rightarrow> ('a \<times> 'a) list" where
  "consecutive (x # y # zs) = (x, y) # consecutive (y # zs)"
| "consecutive _ = []"

definition restSeconds :: "schedule_entry \<times> schedule_entry \<Rightarrow> int" where
  "restSeconds pc = startTimeSeconds (snd pc) - endTimeSeconds (fst pc)"

definition rest_warning :: "athlete \<Rightarrow> int \<Rightarrow> schedule_entry \<times> schedule_entry \<Rightarrow> warning" where
  "rest_warning a minRest pc =
     \<lparr>warning_type = REST_VIOLATION,
      warning_severity = Sev_warning,
      warning_message =
        Msg_rest_violation (athlete_name a) (restSeconds pc div 60) (js_rem (restSeconds pc) 60)
          (minRest div 60),
      affectedItems = [athlete_id a, entry_id (fst pc), entry_id (snd pc)],
      warning_suggestion = Some Sug_more_rotation_or_reorder_rounds\<rparr>"

definition validateMinRestBetweenFights ::
  "schedule_entry list \<Rightarrow> athlete list \<Rightarrow> int \<Rightarrow> warning list" where
  "validateMinRestBetweenFights es as minRest =
     (if minRest \<le> 0 then []
      else concat (map (\<lambda>a. map (rest_warning a minRest)
                              (filter (\<lambda>pc. restSeconds pc < minRest)
                                 (consecutive (athleteMatches es a)))) as))"

text \<open>
  \<open>computeAthleteStats\<close>: one pass of the loop over the athletes gives no record
  (\<open>continue\<close>) when the athlete has no match or the group is not in the map.
\<close>

definition athlete_stats_of ::
  "schedule_entry list \<Rightarrow> (string \<times> group) list \<Rightarrow> int \<Rightarrow> athlete \<Rightarrow> athlete_stats option" where
  "athlete_stats_of es groupsMap minRest a =
     (let ms = athleteMatches es a in
      if length ms = 0 then None
      else
        (let restTimes = map restSeconds (consecutive ms);
             consecutiveCount = length (filter (\<lambda>r. r < minRest) restTimes)
         in case map_of groupsMap (athlete_groupId a) of
              None \<Rightarrow> None
            | Some g \<Rightarrow>
                Some \<lparr>stats_athleteId = athlete_id a,
                      stats_athleteName = athlete_name a,
                      stats_groupId = athlete_groupId a,
                      stats_groupName = group_name g,
                      stats_matchCount = length ms,
                      minRestSeconds = min_or_zero restTimes,
                      maxRestSeconds = max_or_zero restTimes,
                      avgRestSeconds =
                        (if length restTimes > 0
                         then of_int (sum_list restTimes) / of_nat (length restTimes) else 0),
                      totalRestSeconds = sum_list restTimes,
                      consecutiveMatchesCount = consecutiveCount\<rparr>))"

definition computeAthleteStats ::
  "schedule_entry list \<Rightarrow> athlete list \<Rightarrow> (string \<times> group) list \<Rightarrow> int \<Rightarrow> athlete_stats list" where
  "computeAthleteStats es as groupsMap minRest =
     concat (map (\<lambda>a. case athlete_stats_of es groupsMap minRest a of
                         None \<Rightarrow> [] | Some st \<Rightarrow> [st]) as)"

section \<open>Time-boxed greedy scheduler (scheduler.ts)\<close>

record candidate =
  athlete1 :: athlete
  athlete2 :: athlete
  fairnessScore :: rat
  isRematch :: bool

text \<open>The pairs of the two nested loops \<open>i < j\<close>, in the order the loops visit them.\<close>

fun all_pairs :: "'a list \<Rightarrow> ('a \<times> 'a) list" where
  "all_pairs [] = []"
| "all_pairs (x # xs) = map (Pair x) xs @ all_pairs xs"

text \<open>
  The body of the inner loop for one pair: \<open>Inr None\<close> is \<open>continue\<close>, \<open>Inl\<close> is the
  exception raised by reading a property of a state that is not in the map. The second
  state is read only when the first athlete is available, as \<open>||\<close> evaluates.
\<close>

definition candidate_of ::
  "group_state \<Rightarrow> rat \<Rightarrow> int \<Rightarrow> athlete \<times> athlete \<Rightarrow> error + candidate option" where
  "candidate_of st avgMatchCount now p =
     (case map_of (athleteStates st) (athlete_id (fst p)) of
        None \<Rightarrow> Inl TypeError
      | Some state1 \<Rightarrow>
          if availableAt state1 > now then Inr None
          else
            (case map_of (athleteStates st) (athlete_id (snd p)) of
               None \<Rightarrow> Inl TypeError
             | Some state2 \<Rightarrow>
                 if availableAt state2 > now then Inr None
                 else
                   (let matchCountScore = of_nat ((matchCount state1 + matchCount state2) * 10);
                        balancePenalty =
                          \<bar>of_nat (matchCount state1) - avgMatchCount\<bar> +
                          \<bar>of_nat (matchCount state2) - avgMatchCount\<bar>
                    in Inr (Some \<lparr>athlete1 = fst p,
                                  athlete2 = snd p,
                                  fairnessScore = matchCountScore + balancePenalty,
                                  isRematch = athlete_id (snd p) \<in> opponents state1\<rparr>))))"

text \<open>Running a loop body over a list, stopping at the first exception.\<close>

fun collect :: "('a \<Rightarrow> error + 'b option) \<Rightarrow> 'a list \<Rightarrow> error + 'b list" where
  "collect f [] = Inr []"
| "collect f (x # xs) =
     (case f x of
        Inl e \<Rightarrow> Inl e
      | Inr r \<Rightarrow>
          (case collect f xs of
             Inl e \<Rightarrow> Inl e
           | Inr rs \<Rightarrow> Inr (case r of None \<Rightarrow> rs | Some y \<Rightarrow> y # rs)))"

definition avgMatches :: "group \<Rightarrow> group_state \<Rightarrow> rat" where
  "avgMatches g st =
     (if length (athletes g) > 0 then of_nat (totalMatches st) / of_nat (length (athletes g)) else 0)"

definition findBestPairForGroup ::
  "group \<Rightarrow> group_state \<Rightarrow> int \<Rightarrow> int \<Rightarrow> error + candidate option" where
  "findBestPairForGroup g st now minRest =
     (case collect (candidate_of st (avgMatches g st) now) (all_pairs (athletes g)) of
        Inl e \<Rightarrow> Inl e
      | Inr candidates \<Rightarrow>
          (let candidatesNewOpponents = filter (\<lambda>c. \<not> isRematch c) candidates;
               candidatesRematches = filter isRematch candidates
           in if length candidatesNewOpponents > 0
              then Inr (Some (hd (sort_key fairnessScore candidatesNewOpponents)))
              else if length candidatesRematches > 0
              then Inr (Some (hd (sort_key fairnessScore candidatesRematches)))
              else Inr None))"

text \<open>
  \<open>selectNextGroup\<close>. A metric is (groupId, avgMatchesPerAthlete, hasValidPairs). A group
  whose state is missing raises as soon as a property of the state is read, which
  happens exactly when the group has athletes.
\<close>

definition group_metric ::
  "(string \<times> group_state) list \<Rightarrow> int \<Rightarrow> int \<Rightarrow> group \<Rightarrow> error + (string \<times> rat \<times> bool) option" where
  "group_metric states now minRest g =
     (case map_of states (group_id g) of
        None \<Rightarrow> (if length (athletes g) > 0 then Inl TypeError else Inr (Some (group_id g, 0, False)))
      | Some st \<Rightarrow>
          (case findBestPairForGroup g st now minRest of
             Inl e \<Rightarrow> Inl e
           | Inr best \<Rightarrow> Inr (Some (group_id g, avgMatches g st, best \<noteq> None))))"

definition selectNextGroup ::
  "group list \<Rightarrow> (string \<times> group_state) list \<Rightarrow> int \<Rightarrow> int \<Rightarrow> error + string option" where
  "selectNextGroup gs states now minRest =
     (case collect (group_metric states now minRest) gs of
        Inl e \<Rightarrow> Inl e
      | Inr metrics \<Rightarrow>
          (let eligible = filter (\<lambda>m. snd (snd m)) metrics
           in if length eligible = 0 then Inr None
              else Inr (Some (fst (hd (sort_key (\<lambda>m. fst (snd m)) eligible))))))"

text \<open>The state of the main loop of \<open>scheduleTimeBoxedMatchesForArea\<close>.\<close>

record loop_state =
  currentTime :: int
  loop_sequenceNumber :: nat
  groupStates :: "(string \<times> group_state) list"
  loop_entries :: "schedule_entry list"
  idCounter :: nat

datatype flow = Break loop_state | Continue loop_state

definition initial_athlete_state :: "int \<Rightarrow> athlete \<Rightarrow> athlete_state" where
  "initial_athlete_state windowStart a =
     \<lparr>state_athleteId = athlete_id a,
      matchCount = 0,
      opponents = {},
      lastMatchEndTime = windowStart,
      availableAt = windowStart\<rparr>"

definition initial_group_state :: "int \<Rightarrow> group \<Rightarrow> group_state" where
  "initial_group_state windowStart g =
     \<lparr>state_groupId = group_id g,
      athleteStates =
        fold (\<lambda>a m. AList.update (athlete_id a) (initial_athlete_state windowStart a) m)
          (athletes g) [],
      totalMatches = 0,
      lastScheduledTime = windowStart\<rparr>"

definition initial_group_states :: "int \<Rightarrow> group list \<Rightarrow> (string \<times> group_state) list" where
  "initial_group_states windowStart gs =
     fold (\<lambda>g m. AList.update (group_id g) (initial_group_state windowStart g) m) gs []"

text \<open>
  The earliest \<open>availableAt\<close> after the clock and before the end of the window, searched
  over all athlete states of all groups, starting from the end of the window.
\<close>

definition nextAvailable :: "(string \<times> group_state) list \<Rightarrow> int \<Rightarrow> int \<Rightarrow> int" where
  "nextAvailable states now windowEnd =
     fold (\<lambda>st acc.
             fold (\<lambda>athleteState acc.
                     if availableAt athleteState > now \<and> availableAt athleteState < acc
                     then availableAt athleteState else acc)
               (map snd (athleteStates st)) acc)
       (map snd states) windowEnd"

text \<open>The state updates after a match of the chosen pair, on the first then on the second athlete.\<close>

definition after_match :: "string \<Rightarrow> int \<Rightarrow> int \<Rightarrow> athlete_state \<Rightarrow> athlete_state" where
  "after_match opponentId matchEndTime minRest st =
     st\<lparr>matchCount := matchCount st + 1,
        opponents := insert opponentId (opponents st),
        lastMatchEndTime := matchEndTime,
        availableAt := matchEndTime + minRest\<rparr>"

definition commit_match ::
  "idsrc \<Rightarrow> area \<Rightarrow> string \<Rightarrow> group_state \<Rightarrow> candidate \<Rightarrow> int \<Rightarrow> int \<Rightarrow> int \<Rightarrow>
   loop_state \<Rightarrow> error + loop_state" where
  "commit_match src ar selectedGroupId groupState bestPair fightDur rotation minRest s =
     (let sequenceNumber' = loop_sequenceNumber s + 1;
          matchId' = generateId src (idCounter s) (''match_'' @ area_id ar @ ''_'' @ selectedGroupId);
          entry =
            \<lparr>entry_id = generateId src (idCounter s + 1) (''entry_'' @ area_id ar),
             entry_areaId = area_id ar,
             entry_groupId = selectedGroupId,
             matchId = matchId',
             sequenceNumber = sequenceNumber',
             scheduledTime = formatTime (currentTime s),
             startTimeSeconds = currentTime s,
             endTimeSeconds = currentTime s + fightDur,
             athlete1Id = athlete_id (athlete1 bestPair),
             athlete2Id = athlete_id (athlete2 bestPair),
             athlete1Name = athlete_name (athlete1 bestPair),
             athlete2Name = athlete_name (athlete2 bestPair),
             entry_roundNumber = None\<rparr>;
          matchEndTime = currentTime s + fightDur;
          id1 = athlete_id (athlete1 bestPair);
          id2 = athlete_id (athlete2 bestPair)
      in case map_of (athleteStates groupState) id1 of
           None \<Rightarrow> Inl TypeError
         | Some state1 \<Rightarrow>
             (let states1 = AList.update id1 (after_match id2 matchEndTime minRest state1)
                              (athleteStates groupState)
              in case map_of states1 id2 of
                   None \<Rightarrow> Inl TypeError
                 | Some state2 \<Rightarrow>
                     (let states2 = AList.update id2
                                      (after_match id1 matchEndTime minRest state2) states1;
                          groupState' =
                            groupState\<lparr>athleteStates := states2,
                                       totalMatches := totalMatches groupState + 1,
                                       lastScheduledTime := currentTime s\<rparr>
                      in Inr (s\<lparr>currentTime := matchEndTime + rotation,
                                 loop_sequenceNumber := sequenceNumber',
                                 groupStates := AList.update selectedGroupId groupState' (groupStates s),
                                 loop_entries := loop_entries s @ [entry],
                                 idCounter := idCounter s + 2\<rparr>))))"

text \<open>
  One pass of the main loop, entered when the guard \<open>currentTime + fightDuration \<le>
  endTimeSeconds\<close> holds. The test \<open>!selectedGroupId\<close> is true for \<open>null\<close> and for the
  empty string. A selected group that \<open>find\<close> does not return, or whose state is not in
  the map, raises when its first property is read.
\<close>

definition loop_body ::
  "idsrc \<Rightarrow> area \<Rightarrow> group list \<Rightarrow> int \<Rightarrow> int \<Rightarrow> int \<Rightarrow> int \<Rightarrow> loop_state \<Rightarrow> error + flow" where
  "loop_body src ar gs fightDur rotation windowEnd minRest s =
     (case selectNextGroup gs (groupStates s) (currentTime s) minRest of
        Inl e \<Rightarrow> Inl e
      | Inr selected \<Rightarrow>
          if selected = None \<or> selected = Some []
          then
            (let next = nextAvailable (groupStates s) (currentTime s) windowEnd
             in if next \<ge> windowEnd then Inr (Break s)
                else Inr (Continue (s\<lparr>currentTime := next\<rparr>)))
          else
            (let selectedGroupId = the selected
             in case (find (\<lambda>g. group_id g = selectedGroupId) gs,
                      map_of (groupStates s) selectedGroupId) of
                  (Some selectedGroup, Some groupState) \<Rightarrow>
                    (case findBestPairForGroup selectedGroup groupState (currentTime s) minRest of
                       Inl e \<Rightarrow> Inl e
                     | Inr None \<Rightarrow> Inr (Break s)
                     | Inr (Some bestPair) \<Rightarrow>
                         (case commit_match src ar selectedGroupId groupState bestPair fightDur
                                 rotation minRest s of
                            Inl e \<Rightarrow> Inl e
                          | Inr s' \<Rightarrow> Inr (Continue s')))
                | _ \<Rightarrow> Inl TypeError))"

text \<open>
  The \<open>while\<close> loop. It need not terminate (a fight duration and a rotation time of zero
  keep the clock in place), so the result is an option: \<open>None\<close> when the loop runs for
  ever, \<open>Some (Inl e)\<close> when it raises, \<open>Some (Inr s)\<close> when it ends in state \<open>s\<close>.
\<close>

partial_function (option) timeBoxedLoop ::
  "idsrc \<Rightarrow> area \<Rightarrow> group list \<Rightarrow> int \<Rightarrow> int \<Rightarrow> int \<Rightarrow> int \<Rightarrow> loop_state \<Rightarrow>
   (error + loop_state) option" where
  "timeBoxedLoop src ar gs fightDur rotation windowEnd minRest s =
     (if currentTime s + fightDur \<le> windowEnd
      then (case loop_body src ar gs fightDur rotation windowEnd minRest s of
              Inl e \<Rightarrow> Some (Inl e)
            | Inr (Break s') \<Rightarrow> Some (Inr s')
            | Inr (Continue s') \<Rightarrow>
                timeBoxedLoop src ar gs fightDur rotation windowEnd minRest s')
      else Some (Inr s))"

declare timeBoxedLoop.simps [code]

text \<open>The result is the list of entries and the id counter after the area.\<close>

definition scheduleTimeBoxedMatchesForArea ::
  "idsrc \<Rightarrow> nat \<Rightarrow> area \<Rightarrow> group list \<Rightarrow> int \<Rightarrow> int \<Rightarrow> int \<Rightarrow> int \<Rightarrow> int \<Rightarrow>
   (error + schedule_entry list \<times> nat) option" where
  "scheduleTimeBoxedMatchesForArea src k ar gs fightDur rotation windowStart windowEnd
     minRest =
     (case timeBoxedLoop src ar gs fightDur rotation windowEnd minRest
             \<lparr>currentTime = windowStart,
              loop_sequenceNumber = 0,
              groupStates = initial_group_states windowStart gs,
              loop_entries = [],
              idCounter = k\<rparr> of
        None \<Rightarrow> None
      | Some (Inl e) \<Rightarrow> Some (Inl e)
      | Some (Inr s) \<Rightarrow> Some (Inr (loop_entries s, idCounter s)))"

section \<open>Fairness statistics and the entry point (scheduler.ts)\<close>

text \<open>\<open>map.set(key, (map.get(key) || 0) + 1)\<close>.\<close>

definition bump :: "string \<Rightarrow> (string \<times> nat) list \<Rightarrow> (string \<times> nat) list" where
  "bump key m = AList.update key ((case map_of m key of None \<Rightarrow> 0 | Some c \<Rightarrow> c) + 1) m"

text \<open>
  \<open>[a, b].sort().join('-')\<close>: the default sort compares the two strings code unit by
  code unit; the order on strings is the lexicographic order on characters.
\<close>

definition pairKey :: "schedule_entry \<Rightarrow> string" where
  "pairKey e =
     (if athlete2Id e < athlete1Id e then athlete2Id e @ ''-'' @ athlete1Id e
      else athlete1Id e @ ''-'' @ athlete2Id e)"

definition all_groups :: "event \<Rightarrow> group list" where
  "all_groups ev = concat (map groups (areas ev))"

definition groups_map :: "event \<Rightarrow> (string \<times> group) list" where
  "groups_map ev = fold (\<lambda>g m. AList.update (group_id g) g m) (all_groups ev) []"

definition entries_by_group :: "schedule_entry list \<Rightarrow> event \<Rightarrow> (string \<times> schedule_entry list) list" where
  "entries_by_group es ev =
     fold (\<lambda>e m. case map_of m (entry_groupId e) of
                    None \<Rightarrow> m
                  | Some l \<Rightarrow> AList.update (entry_groupId e) (l @ [e]) m)
       es
       (fold (\<lambda>g m. AList.update (group_id g) [] m) (all_groups ev) [])"

definition average :: "nat list \<Rightarrow> rat" where
  "average xs = (if length xs > 0 then of_nat (sum_list xs) / of_nat (length xs) else 0)"

definition percentage :: "nat \<Rightarrow> nat \<Rightarrow> rat" where
  "percentage part whole = (of_nat part / of_nat whole) * 100"

definition group_match_counts :: "group \<Rightarrow> schedule_entry list \<Rightarrow> nat list" where
  "group_match_counts g groupEntries =
     map snd
       (fold (\<lambda>e m. bump (athlete2Id e) (bump (athlete1Id e) m)) groupEntries
          (fold (\<lambda>a m. AList.update (athlete_id a) 0 m) (athletes g) []))"

definition group_stats_of ::
  "(string \<times> schedule_entry list) list \<Rightarrow> string \<times> group \<Rightarrow> group_time_boxed_stats" where
  "group_stats_of entriesByGroup kg =
     (let g = snd kg;
          groupEntries = (case map_of entriesByGroup (fst kg) of None \<Rightarrow> [] | Some l \<Rightarrow> l);
          matchCounts = group_match_counts g groupEntries;
          minMatches = min_or_zero matchCounts;
          maxMatches = max_or_zero matchCounts;
          theoretical = combinations (length (athletes g))
      in \<lparr>gtb_groupId = group_id g,
          gtb_groupName = group_name g,
          athleteCount = length (athletes g),
          gtb_totalMatches = length groupEntries,
          theoreticalMax = theoretical,
          completenessPercentage =
            (if theoretical > 0 then percentage (length groupEntries) theoretical else 100),
          gtb_minMatchesPerAthlete = minMatches,
          gtb_maxMatchesPerAthlete = maxMatches,
          gtb_avgMatchesPerAthlete = average matchCounts,
          gtb_matchCountGap = maxMatches - minMatches\<rparr>)"

definition computeTimeBoxedStats ::
  "(string \<Rightarrow> int option) \<Rightarrow> schedule_entry list \<Rightarrow> event \<Rightarrow> error + time_boxed_stats" where
  "computeTimeBoxedStats num es ev =
     (let groupsMap = groups_map ev;
          entriesByGroup = entries_by_group es ev;
          pairMatchCounts = fold (\<lambda>e m. bump (pairKey e) m) es [];
          rematches = sum_list (map (\<lambda>c. if c > 1 then c - 1 else 0) (map snd pairMatchCounts));
          allMatchCounts =
            concat (map (\<lambda>kg. group_match_counts (snd kg)
                                 (case map_of entriesByGroup (fst kg) of None \<Rightarrow> [] | Some l \<Rightarrow> l))
                      groupsMap);
          gstats = map (group_stats_of entriesByGroup) groupsMap;
          globalMin = min_or_zero allMatchCounts;
          globalMax = max_or_zero allMatchCounts;
          totalTheoretical = sum_list (map theoreticalMax gstats);
          totalScheduled = length es
      in case parseTime num (endTime ev) of
           Inl e \<Rightarrow> Inl e
         | Inr windowEnd \<Rightarrow>
             (case parseTime num (startTime ev) of
                Inl e \<Rightarrow> Inl e
              | Inr windowStart \<Rightarrow>
                  (let timeAvailable = windowEnd - windowStart;
                       timeUsed =
                         (if length es > 0 then endTimeSeconds (last es) - startTimeSeconds (hd es)
                          else 0)
                   in Inr \<lparr>minMatchesPerAthlete = globalMin,
                           maxMatchesPerAthlete = globalMax,
                           avgMatchesPerAthlete = average allMatchCounts,
                           matchCountGap = globalMax - globalMin,
                           groupStats = gstats,
                           totalMatchesScheduled = totalScheduled,
                           totalTheoreticalMatches = totalTheoretical,
                           overallCompletenessPercentage =
                             (if totalTheoretical > 0 then percentage totalScheduled totalTheoretical
                              else 100),
                           rematchesCount = rematches,
                           timeUsedSeconds = timeUsed,
                           timeAvailableSeconds = timeAvailable,
                           timeUtilizationPercentage =
                             (if timeAvailable > 0
                              then (of_int timeUsed / of_int timeAvailable) * 100 else 0)\<rparr>)))"

definition area_stats_of :: "schedule_entry list \<Rightarrow> int \<Rightarrow> area \<Rightarrow> area_stats" where
  "area_stats_of allEntries available ar =
     (let areaEntries = filter (\<lambda>e. entry_areaId e = area_id ar) allEntries;
          d = (if length areaEntries > 0
               then endTimeSeconds (last areaEntries) - startTimeSeconds (hd areaEntries) else 0)
      in \<lparr>areastats_areaId = area_id ar,
          areastats_areaName = area_name ar,
          areastats_matchCount = length areaEntries,
          duration = d,
          marginOrOverflow = available - d\<rparr>)"

definition time_overflow_warning :: "event \<Rightarrow> warning" where
  "time_overflow_warning ev =
     \<lparr>warning_type = TIME_OVERFLOW,
      warning_severity = Sev_error,
      warning_message = Msg_insufficient_time,
      affectedItems = [event_id ev],
      warning_suggestion = Some Sug_extend_event_or_shorten_fights\<rparr>"

definition no_valid_group_warning :: "area \<Rightarrow> warning" where
  "no_valid_group_warning ar =
     \<lparr>warning_type = INFO,
      warning_severity = Sev_warning,
      warning_message = Msg_no_group_with_two_athletes (area_name ar),
      affectedItems = [area_id ar],
      warning_suggestion = None\<rparr>"

definition equity_warning :: "event \<Rightarrow> time_boxed_stats \<Rightarrow> warning" where
  "equity_warning ev tbs =
     \<lparr>warning_type = INFO,
      warning_severity = Sev_warning,
      warning_message =
        Msg_equity (matchCountGap tbs) (minMatchesPerAthlete tbs) (maxMatchesPerAthlete tbs),
      affectedItems = [event_id ev],
      warning_suggestion = Some Sug_extend_event_or_shrink_groups\<rparr>"

definition completeness_warning :: "event \<Rightarrow> time_boxed_stats \<Rightarrow> warning" where
  "completeness_warning ev tbs =
     \<lparr>warning_type = INFO,
      warning_severity = Sev_warning,
      warning_message = Msg_low_completeness (overallCompletenessPercentage tbs),
      affectedItems = [event_id ev],
      warning_suggestion = Some Sug_extend_event\<rparr>"

text \<open>
  The loop over the areas. The accumulator is the list of all entries, the warnings and
  the id counter; an area without groups is skipped, an area without a group of two
  athletes gets a warning and is skipped.
\<close>

definition validGroups :: "area \<Rightarrow> group list" where
  "validGroups ar = filter (\<lambda>g. length (athletes g) \<ge> 2) (groups ar)"

fun schedule_areas ::
  "idsrc \<Rightarrow> int \<Rightarrow> int \<Rightarrow> int \<Rightarrow> int \<Rightarrow> int \<Rightarrow> area list \<Rightarrow>
   schedule_entry list \<times> warning list \<times> nat \<Rightarrow>
   (error + schedule_entry list \<times> warning list \<times> nat) option" where
  "schedule_areas src fightDur rotation windowStart windowEnd minRest [] acc = Some (Inr acc)"
| "schedule_areas src fightDur rotation windowStart windowEnd minRest (ar # rest) acc =
     (if length (groups ar) = 0
      then schedule_areas src fightDur rotation windowStart windowEnd minRest rest acc
      else if length (validGroups ar) = 0
      then schedule_areas src fightDur rotation windowStart windowEnd minRest rest
             (fst acc, fst (snd acc) @ [no_valid_group_warning ar], snd (snd acc))
      else
        (case scheduleTimeBoxedMatchesForArea src (snd (snd acc)) ar (validGroups ar) fightDur
                rotation windowStart windowEnd minRest of
           None \<Rightarrow> None
         | Some (Inl e) \<Rightarrow> Some (Inl e)
         | Some (Inr (areaEntries, k)) \<Rightarrow>
             schedule_areas src fightDur rotation windowStart windowEnd minRest rest
               (fst acc @ areaEntries, fst (snd acc), k)))"

definition empty_result :: "event \<Rightarrow> generated" where
  "empty_result ev =
     \<lparr>generated_schedule =
        \<lparr>schedule_eventId = event_id ev,
         entries = [],
         stats = \<lparr>stats_totalMatches = 0, totalDuration = 0, areaStats = [], athleteStats = [],
                  timeBoxedStats = None\<rparr>,
         schedule_warnings = [time_overflow_warning ev]\<rparr>,
      generated_warnings = [time_overflow_warning ev]\<rparr>"

definition all_athletes :: "event \<Rightarrow> athlete list" where
  "all_athletes ev = concat (map (\<lambda>a. concat (map athletes (groups a))) (areas ev))"

definition minRestOf :: "event \<Rightarrow> int" where
  "minRestOf ev = (case minRestBetweenFightsSeconds ev of None \<Rightarrow> 0 | Some m \<Rightarrow> m)"

text \<open>Everything after the loop over the areas: statistics, warnings, the schedule.\<close>

definition assemble ::
  "event \<Rightarrow> int \<Rightarrow> int \<Rightarrow> schedule_entry list \<Rightarrow> warning list \<Rightarrow> time_boxed_stats \<Rightarrow> generated" where
  "assemble ev windowStart windowEnd allEntries areaWarnings tbs =
     (let minRest = minRestOf ev;
          allAthletes = all_athletes ev;
          athStats = computeAthleteStats allEntries allAthletes (groups_map ev) minRest;
          arStats = map (area_stats_of allEntries (windowEnd - windowStart)) (areas ev);
          restWarnings = validateMinRestBetweenFights allEntries allAthletes minRest;
          ws = areaWarnings @ restWarnings
                 @ (if matchCountGap tbs > 2 then [equity_warning ev tbs] else [])
                 @ (if overallCompletenessPercentage tbs < 50 then [completeness_warning ev tbs] else [])
      in \<lparr>generated_schedule =
            \<lparr>schedule_eventId = event_id ev,
             entries = allEntries,
             stats =
               \<lparr>stats_totalMatches = length allEntries,
                totalDuration =
                  (if length allEntries > 0
                   then endTimeSeconds (last allEntries) - startTimeSeconds (hd allEntries) else 0),
                areaStats = arStats,
                athleteStats = athStats,
                timeBoxedStats = Some tbs\<rparr>,
             schedule_warnings = ws\<rparr>,
          generated_warnings = ws\<rparr>)"

definition generateTimeBoxedSchedule ::
  "(string \<Rightarrow> int option) \<Rightarrow> idsrc \<Rightarrow> event \<Rightarrow> (error + generated) option" where
  "generateTimeBoxedSchedule num src ev =
     (case parseTime num (startTime ev) of
        Inl e \<Rightarrow> Some (Inl e)
      | Inr windowStart \<Rightarrow>
          (case parseTime num (endTime ev) of
             Inl e \<Rightarrow> Some (Inl e)
           | Inr windowEnd \<Rightarrow>
               if windowStart + fightDuration ev > windowEnd then Some (Inr (empty_result ev))
               else
                 (case schedule_areas src (fightDuration ev) (rotationTime ev) windowStart windowEnd
                         (minRestOf ev) (areas ev) ([], [], 0) of
                    None \<Rightarrow> None
                  | Some (Inl e) \<Rightarrow> Some (Inl e)
                  | Some (Inr (allEntries, areaWarnings, k)) \<Rightarrow>
                      (case computeTimeBoxedStats num allEntries ev of
                         Inl e \<Rightarrow> Some (Inl e)
                       | Inr tbs \<Rightarrow>
                           Some (Inr (assemble ev windowStart windowEnd allEntries areaWarnings tbs))))))"

text \<open>
  An instance of the parameter \<open>num\<close> for examples: the builtin \<open>Number\<close> on strings of
  decimal digits (the empty string reads as zero); every other string is treated as not
  a number here.
\<close>

definition digit_value :: "char \<Rightarrow> nat option" where
  "digit_value c =
     (if CHR ''0'' \<le> c \<and> c \<le> CHR ''9'' then Some (of_char c - of_char (CHR ''0'')) else None)"

definition decimal_Number :: "string \<Rightarrow> int option" where
  "decimal_Number s =
     (if list_all (\<lambda>c. digit_value c \<noteq> None) s
      then Some (int (fold (\<lambda>c n. 10 * n + the (digit_value c)) s 0)) else None)"

section \<open>Vocabulary of the statements\<close>

text \<open>All matches of a list of rounds, and the athlete ids of a match as a pair and as a set.\<close>

definition all_matches :: "round list \<Rightarrow> match list" where
  "all_matches rs = concat (map matches rs)"

definition match_pair :: "match \<Rightarrow> string \<times> string" where
  "match_pair m = (match_athlete1Id m, match_athlete2Id m)"

definition match_ids :: "match \<Rightarrow> string set" where
  "match_ids m = {match_athlete1Id m, match_athlete2Id m}"

text \<open>
  The pairing of one round, read off the participants and the circular index list: the
  ids met at slot \<open>i\<close>, whether a pair is kept (no placeholder), and the kept pairs of
  a round in slot order.
\<close>

definition slot_pair :: "athlete list \<Rightarrow> nat list \<Rightarrow> nat \<Rightarrow> string \<times> string" where
  "slot_pair participants indexes i =
     (athlete_id (participants ! (indexes ! i)),
      athlete_id (participants ! (indexes ! (length participants - 1 - i))))"

definition played :: "string \<times> string \<Rightarrow> bool" where
  "played p = (fst p \<noteq> ''BYE'' \<and> snd p \<noteq> ''BYE'')"

definition round_content :: "athlete list \<Rightarrow> nat list \<Rightarrow> (string \<times> string) list" where
  "round_content participants indexes =
     filter played (map (slot_pair participants indexes) [0..<length participants div 2])"

definition rounds_content :: "round list \<Rightarrow> (string \<times> string) list list" where
  "rounds_content rs = map (\<lambda>r. map match_pair (matches r)) rs"

text \<open>
  The circular index list at the start of round \<open>r\<close> when there are \<open>M + 1\<close>
  participants, the two indexes met at slot \<open>i\<close> of that round as a set, the meetings
  of a round and of a whole cycle.
\<close>

definition idx_round :: "nat \<Rightarrow> nat \<Rightarrow> nat list" where
  "idx_round M r = (rotate_indexes ^^ r) [0..<Suc M]"

definition meet :: "nat \<Rightarrow> nat \<Rightarrow> nat \<Rightarrow> nat set" where
  "meet M r i = {idx_round M r ! i, idx_round M r ! (M - i)}"

definition round_meets :: "nat \<Rightarrow> nat \<Rightarrow> nat set list" where
  "round_meets M r = map (meet M r) [0..<Suc M div 2]"

definition cycle_meets :: "nat \<Rightarrow> nat set list" where
  "cycle_meets M = concat (map (round_meets M) [0..<M])"

definition pair_set :: "'a \<times> 'a \<Rightarrow> 'a set" where
  "pair_set p = {fst p, snd p}"

text \<open>An athlete whose name is its id, for examples.\<close>

definition plain_athlete :: "string \<Rightarrow> athlete" where
  "plain_athlete i = \<lparr>athlete_id = i, athlete_name = i, athlete_groupId = ''g''\<rparr>"

text \<open>Sample data for the examples: an entry, a group, an area and an event.\<close>

definition sample_entry :: "string \<Rightarrow> string \<Rightarrow> int \<Rightarrow> schedule_entry" where
  "sample_entry a b t =
     \<lparr>entry_id = ''e'', entry_areaId = ''a1'', entry_groupId = ''g'', matchId = ''m'',
      sequenceNumber = 1, scheduledTime = formatTime t, startTimeSeconds = t,
      endTimeSeconds = t + 120, athlete1Id = a, athlete2Id = b, athlete1Name = a,
      athlete2Name = b, entry_roundNumber = None\<rparr>"

definition group_of :: "string \<Rightarrow> string list \<Rightarrow> group" where
  "group_of gid ids =
     \<lparr>group_id = gid, group_name = gid, group_areaId = ''a1'',
      athletes = map (\<lambda>i. \<lparr>athlete_id = i, athlete_name = i, athlete_groupId = gid\<rparr>) ids\<rparr>"

definition area_of :: "string \<Rightarrow> group list \<Rightarrow> area" where
  "area_of aid gs = \<lparr>area_id = aid, area_name = aid, groups = gs\<rparr>"

definition event_of :: "string \<Rightarrow> string \<Rightarrow> int \<Rightarrow> int \<Rightarrow> int \<Rightarrow> area list \<Rightarrow> event" where
  "event_of start end fd rot rest as =
     \<lparr>event_id = ''ev'', event_name = ''Test'', event_date = ''2025-01-01'',
      fightDuration = fd, rotationTime = rot, startTime = start, endTime = end,
      areas = as, minRestBetweenFightsSeconds = Some rest, createdAt = None, updatedAt = None\<rparr>"

text \<open>An id source for the examples.\<close>

definition sample_ids :: idsrc where
  "sample_ids k = (decimal k, ''r'')"

text \<open>
  The entry a pass of the loop emits for a chosen pair, and the state of the group after
  the match, named so that statements can refer to them.
\<close>

definition new_entry :: "idsrc \<Rightarrow> area \<Rightarrow> string \<Rightarrow> candidate \<Rightarrow> int \<Rightarrow> loop_state \<Rightarrow> schedule_entry" where
  "new_entry src ar gid c fightDur s =
     \<lparr>entry_id = generateId src (idCounter s + 1) (''entry_'' @ area_id ar),
      entry_areaId = area_id ar,
      entry_groupId = gid,
      matchId = generateId src (idCounter s) (''match_'' @ area_id ar @ ''_'' @ gid),
      sequenceNumber = loop_sequenceNumber s + 1,
      scheduledTime = formatTime (currentTime s),
      startTimeSeconds = currentTime s,
      endTimeSeconds = currentTime s + fightDur,
      athlete1Id = athlete_id (athlete1 c),
      athlete2Id = athlete_id (athlete2 c),
      athlete1Name = athlete_name (athlete1 c),
      athlete2Name = athlete_name (athlete2 c),
      entry_roundNumber = None\<rparr>"

definition states_after ::
  "string \<Rightarrow> string \<Rightarrow> int \<Rightarrow> int \<Rightarrow> (string \<times> athlete_state) list \<Rightarrow> (string \<times> athlete_state) list" where
  "states_after id1 id2 matchEnd minRest m =
     (let m1 = AList.update id1 (after_match id2 matchEnd minRest (the (map_of m id1))) m
      in AList.update id2 (after_match id1 matchEnd minRest (the (map_of m1 id2))) m1)"

text \<open>
  A small event: one area with a group of two athletes and a group of one athlete, the
  window 09:00 to 09:05, fights of 120 seconds, 30 seconds of rotation, no minimum rest.
\<close>

definition small_event :: event where
  "small_event =
     event_of ''09:00'' ''09:05'' 120 30 0
       [area_of ''a1'' [group_of ''g1'' [''x'', ''y''], group_of ''g2'' [''z'']]]"

text \<open>
  The event without its groups of fewer than two athletes, and an example with such
  groups: the area a1 has the groups [x, y] and [z], the area a2 only the group [w].
\<close>

definition without_small_groups :: "event \<Rightarrow> event" where
  "without_small_groups ev = ev\<lparr>areas := map (\<lambda>ar. ar\<lparr>groups := validGroups ar\<rparr>) (areas ev)\<rparr>"

definition mixed_event :: event where
  "mixed_event =
     event_of ''09:00'' ''09:05'' 120 30 0
       [area_of ''a1'' [group_of ''g1'' [''x'', ''y''], group_of ''g2'' [''z'']],
        area_of ''a2'' [group_of ''g3'' [''w'']]]"



text \<open>
  The state of an athlete of a group in a loop state, whether an athlete of a group is
  available at the clock of the state, and whether two athletes of a group have an entry
  together in a list of entries.
\<close>

definition state_of :: "loop_state \<Rightarrow> string \<Rightarrow> string \<Rightarrow> athlete_state option" where
  "state_of s gid x =
     (case map_of (groupStates s) gid of None \<Rightarrow> None | Some st \<Rightarrow> map_of (athleteStates st) x)"

definition available :: "loop_state \<Rightarrow> string \<Rightarrow> athlete \<Rightarrow> bool" where
  "available s gid a =
     (case state_of s gid (athlete_id a) of None \<Rightarrow> False | Some sx \<Rightarrow> availableAt sx \<le> currentTime s)"

definition fought_before :: "schedule_entry list \<Rightarrow> string \<Rightarrow> string \<Rightarrow> string \<Rightarrow> bool" where
  "fought_before es gid x y =
     (\<exists>e \<in> set es. entry_groupId e = gid \<and>
        ((athlete1Id e = x \<and> athlete2Id e = y) \<or> (athlete1Id e = y \<and> athlete2Id e = x)))"

text \<open>The first state of the loop for an area, and the states the loop passes through.\<close>

definition initial_loop_state :: "int \<Rightarrow> group list \<Rightarrow> nat \<Rightarrow> loop_state" where
  "initial_loop_state windowStart gs k =
     \<lparr>currentTime = windowStart, loop_sequenceNumber = 0,
      groupStates = initial_group_states windowStart gs, loop_entries = [], idCounter = k\<rparr>"

inductive reachable ::
  "idsrc \<Rightarrow> area \<Rightarrow> group list \<Rightarrow> int \<Rightarrow> int \<Rightarrow> int \<Rightarrow> int \<Rightarrow> int \<Rightarrow> nat \<Rightarrow> loop_state \<Rightarrow> bool"
  for src ar gs fightDur rotation windowStart windowEnd minRest k where
    start: "reachable src ar gs fightDur rotation windowStart windowEnd minRest k
              (initial_loop_state windowStart gs k)"
  | pass: "reachable src ar gs fightDur rotation windowStart windowEnd minRest k s \<Longrightarrow>
           currentTime s + fightDur \<le> windowEnd \<Longrightarrow>
           loop_body src ar gs fightDur rotation windowEnd minRest s = Inr (Continue s') \<Longrightarrow>
           reachable src ar gs fightDur rotation windowStart windowEnd minRest k s'"

text \<open>
  The state after a number of passes of the loop that all continue (none when a pass
  raises, ends the loop, or the guard of the loop fails), and an example: the group
  [x, y, z] alone on an area, from 09:00 to 09:15 with no rest. Of an entry, the group and
  the two athletes.
\<close>

fun passes ::
  "idsrc \<Rightarrow> area \<Rightarrow> group list \<Rightarrow> int \<Rightarrow> int \<Rightarrow> int \<Rightarrow> int \<Rightarrow> nat \<Rightarrow> loop_state \<Rightarrow> loop_state option" where
  "passes src ar gs fightDur rotation windowEnd minRest 0 s = Some s"
| "passes src ar gs fightDur rotation windowEnd minRest (Suc n) s =
     (case passes src ar gs fightDur rotation windowEnd minRest n s of
        None \<Rightarrow> None
      | Some t \<Rightarrow>
          if currentTime t + fightDur \<le> windowEnd
          then (case loop_body src ar gs fightDur rotation windowEnd minRest t of
                  Inr (Continue t') \<Rightarrow> Some t'
                | _ \<Rightarrow> None)
          else None)"

definition trio :: "group list" where
  "trio = [group_of ''g1'' [''x'', ''y'', ''z'']]"

definition trio_passes :: "nat \<Rightarrow> loop_state option" where
  "trio_passes n =
     passes sample_ids (area_of ''a1'' trio) trio 120 30 33300 0 n (initial_loop_state 32400 trio 0)"

definition entry_summary :: "schedule_entry \<Rightarrow> string \<times> string \<times> string" where
  "entry_summary e = (entry_groupId e, athlete1Id e, athlete2Id e)"

text \<open>Invariants of the loop: what the opponent sets and the availability times record.\<close>

definition history_inv :: "loop_state \<Rightarrow> bool" where
  "history_inv s =
     (\<forall>gid x sx. state_of s gid x = Some sx \<longrightarrow>
        opponents sx = {y. fought_before (loop_entries s) gid x y})"




definition group_athlete_ids :: "group \<Rightarrow> string set" where
  "group_athlete_ids g = athlete_id ` set (athletes g)"





text \<open>
  The ids that \<open>generateId\<close> makes are the only values that come from the id
  source. Erasing them: the two ids of an entry, the entry ids that a rest violation
  lists after the athlete, and accordingly in a result, a loop state, the outcome of a
  pass and the result of an area.
\<close>

definition erase_entry :: "schedule_entry \<Rightarrow> schedule_entry" where
  "erase_entry e = e\<lparr>entry_id := [], matchId := []\<rparr>"

definition erase_warning :: "warning \<Rightarrow> warning" where
  "erase_warning w =
     (if warning_type w = REST_VIOLATION then w\<lparr>affectedItems := take 1 (affectedItems w)\<rparr> else w)"

definition erase_ids :: "generated \<Rightarrow> generated" where
  "erase_ids r =
     r\<lparr>generated_schedule :=
         (generated_schedule r)
           \<lparr>entries := map erase_entry (entries (generated_schedule r)),
            schedule_warnings := map erase_warning (schedule_warnings (generated_schedule r))\<rparr>,
       generated_warnings := map erase_warning (generated_warnings r)\<rparr>"

definition erase_state :: "loop_state \<Rightarrow> loop_state" where
  "erase_state s = s\<lparr>loop_entries := map erase_entry (loop_entries s)\<rparr>"

fun erase_flow :: "flow \<Rightarrow> flow" where
  "erase_flow (Break s) = Break (erase_state s)"
| "erase_flow (Continue s) = Continue (erase_state s)"

definition erase_area_result :: "schedule_entry list \<times> nat \<Rightarrow> schedule_entry list \<times> nat" where
  "erase_area_result p = (map erase_entry (fst p), snd p)"

section \<open>The pairing generator: structure of the result\<close>

lemma rounds_content_append [simp]: "rounds_content (xs @ ys) = rounds_content xs @ rounds_content ys"
  by (simp add: rounds_content_def)

lemma fold_match_step:
  "map match_pair (fst (fold (match_step src ps idxs g c r) js acc)) =
   map match_pair (fst acc) @ filter played (map (slot_pair ps idxs) js)"
  by (induction js arbitrary: acc)
     (auto simp: match_step_def Let_def slot_pair_def played_def match_pair_def)

lemma round_step_content:
  "round_step src ps g c r (rs, idxs, k) = (rs', idxs', k') \<Longrightarrow>
   rounds_content rs' = rounds_content rs @ [round_content ps idxs]
   \<and> idxs' = rotate_indexes idxs"
  by (auto simp: round_step_def Let_def fold_match_step round_content_def rounds_content_def)

lemma fold_round_step:
  "fold (round_step src ps g c) ns (rs, idxs, k) = (rs', idxs', k') \<Longrightarrow>
   rounds_content rs' =
     rounds_content rs @
     map (\<lambda>j. round_content ps ((rotate_indexes ^^ j) idxs)) [0..<length ns]
   \<and> idxs' = (rotate_indexes ^^ length ns) idxs"
proof (induction ns arbitrary: rs idxs k)
  case Nil
  then show ?case by simp
next
  case (Cons n ns)
  obtain rs1 idxs1 k1 where st: "round_step src ps g c n (rs, idxs, k) = (rs1, idxs1, k1)"
    by (metis prod_cases3)
  from round_step_content[OF st] have
    c1: "rounds_content rs1 = rounds_content rs @ [round_content ps idxs]"
    and i1: "idxs1 = rotate_indexes idxs" by simp_all
  from Cons.prems st have "fold (round_step src ps g c) ns (rs1, idxs1, k1) = (rs', idxs', k')"
    by simp
  from Cons.IH[OF this] have
    c2: "rounds_content rs' =
         rounds_content rs1 @
         map (\<lambda>j. round_content ps ((rotate_indexes ^^ j) idxs1)) [0..<length ns]"
    and i2: "idxs' = (rotate_indexes ^^ length ns) idxs1" by simp_all
  have shift: "map (\<lambda>j. round_content ps ((rotate_indexes ^^ j) idxs)) [0..<length (n # ns)] =
        round_content ps idxs # map (\<lambda>j. round_content ps ((rotate_indexes ^^ j) idxs1)) [0..<length ns]"
    by (simp add: upt_conv_Cons map_Suc_upt[symmetric] funpow_swap1 i1 del: upt_Suc)
  show ?case using c1 c2 i2 i1 shift by (simp add: funpow_swap1)
qed



lemma fold_cycles:
  "fold (\<lambda>cycle st. fold (round_step src ps g cycle) [0..<m] st) cs (rs, idxs, k) = (rs', idxs', k') \<Longrightarrow>
   rounds_content rs' =
     rounds_content rs @
     map (\<lambda>j. round_content ps ((rotate_indexes ^^ j) idxs)) [0..<length cs * m]
   \<and> idxs' = (rotate_indexes ^^ (length cs * m)) idxs"
proof (induction cs arbitrary: rs idxs k)
  case Nil
  then show ?case by simp
next
  case (Cons c cs)
  obtain rs1 idxs1 k1 where st: "fold (round_step src ps g c) [0..<m] (rs, idxs, k) = (rs1, idxs1, k1)"
    using prod_cases3 by blast
  from fold_round_step[OF st] have
    c1: "rounds_content rs1 = rounds_content rs @
          map (\<lambda>j. round_content ps ((rotate_indexes ^^ j) idxs)) [0..<m]"
    and i1: "idxs1 = (rotate_indexes ^^ m) idxs" by simp_all
  from Cons.prems have "fold (\<lambda>cycle st. fold (round_step src ps g cycle) [0..<m] st) cs (rs1, idxs1, k1) = (rs', idxs', k')"
    unfolding fold_Cons o_apply st .
  from Cons.IH[OF this] have
    c2: "rounds_content rs' =
         rounds_content rs1 @
         map (\<lambda>j. round_content ps ((rotate_indexes ^^ j) idxs1)) [0..<length cs * m]"
    and i2: "idxs' = (rotate_indexes ^^ (length cs * m)) idxs1" by simp_all
  have len: "length (c # cs) * m = m + length cs * m" by simp
  have split: "[0..<m + length cs * m] = [0..<m] @ map (\<lambda>j. j + m) [0..<length cs * m]"
  proof -
    have "[0..<m + length cs * m] = [0..<m] @ [m..<m + length cs * m]"
      by (rule upt_add_eq_append) simp
    moreover have "map (\<lambda>j. j + m) [0..<length cs * m] = [m..<length cs * m + m]"
      by (rule map_add_upt)
    ultimately show ?thesis by (simp only: add.commute)
  qed
  have fp: "\<And>j. (rotate_indexes ^^ (j + m)) idxs = (rotate_indexes ^^ j) idxs1"
    unfolding i1 by (simp only: funpow_add o_apply)
  have m2: "map (\<lambda>j. round_content ps ((rotate_indexes ^^ j) idxs)) [0..<m + length cs * m] =
        map (\<lambda>j. round_content ps ((rotate_indexes ^^ j) idxs)) [0..<m] @
        map (\<lambda>j. round_content ps ((rotate_indexes ^^ j) idxs1)) [0..<length cs * m]"
    unfolding split by (simp add: fp o_def)
  have i3: "idxs' = (rotate_indexes ^^ (length cs * m + m)) idxs"
    unfolding i2 by (simp only: fp)
  have i4: "length cs * m + m = length (c # cs) * m" by simp
  show ?case unfolding len m2 using c1 c2 i3 i4 by simp
qed


lemma generateRounds_content:
  assumes "2 \<le> length roster"
  shows "rounds_content (generateRoundsForGroup src k roster g c) =
     map (\<lambda>j. round_content (participants_of roster g)
                 ((rotate_indexes ^^ j) [0..<length (participants_of roster g)]))
         [0..<c * (length (participants_of roster g) - 1)]"
proof -
  let ?ps = "participants_of roster g"
  obtain rs' idxs' k' where st:
    "fold (\<lambda>cycle st. fold (round_step src ?ps g cycle) [0..<length ?ps - 1] st) [1..<Suc c]
       ([], [0..<length ?ps], k) = (rs', idxs', k')"
    using prod_cases3 by blast
  have "rounds_content rs' = rounds_content [] @
     map (\<lambda>j. round_content ?ps ((rotate_indexes ^^ j) [0..<length ?ps]))
       [0..<length [1..<Suc c] * (length ?ps - 1)]"
    using fold_cycles[OF st] by blast
  moreover have "generateRoundsForGroup src k roster g c = rs'"
    using assms st by (simp add: generateRoundsForGroup_def Let_def)
  ultimately show ?thesis by (simp add: rounds_content_def)
qed

lemma length_rotate_indexes [simp]: "length (rotate_indexes xs) = length xs"
  by (cases xs) auto

lemma set_rotate_indexes [simp]: "set (rotate_indexes xs) = set xs"
proof (cases xs)
  case Nil
  then show ?thesis by simp
next
  case (Cons x ys)
  show ?thesis
  proof (cases "ys = []")
    case True
    with Cons show ?thesis by simp
  next
    case False
    then have "set (last ys # butlast ys) = set ys"
      by (metis append_butlast_last_id insert_is_Un list.simps(15) set_append sup_commute
          empty_set sup_bot_right)
    with Cons False show ?thesis by simp
  qed
qed

lemma distinct_rotate_indexes [simp]: "distinct (rotate_indexes xs) = distinct xs"
proof (cases xs)
  case Nil
  then show ?thesis by simp
next
  case (Cons x ys)
  show ?thesis
  proof (cases "ys = []")
    case True
    with Cons show ?thesis by simp
  next
    case False
    then have ys: "ys = butlast ys @ [last ys]" by simp
    have "distinct (last ys # butlast ys) = distinct (butlast ys @ [last ys])"
      by auto
    then have d: "distinct (last ys # butlast ys) = distinct ys" using ys by simp
    have "set (last ys # butlast ys) = set (butlast ys @ [last ys])" by auto
    then have s: "set (last ys # butlast ys) = set ys" using ys by simp
    have "distinct (x # last ys # butlast ys) = distinct (x # ys)"
      using d s by (metis distinct.simps(2))
    with Cons False show ?thesis by simp
  qed
qed

lemma funpow_rotate_indexes_perm:
  "length ((rotate_indexes ^^ j) xs) = length xs \<and> set ((rotate_indexes ^^ j) xs) = set xs \<and>
   distinct ((rotate_indexes ^^ j) xs) = distinct xs"
  by (induction j) simp_all

lemma distinct_slot_positions:
  fixes js :: "nat list"
  shows "distinct js \<Longrightarrow> \<forall>i\<in>set js. 2 * i < p - 1 \<Longrightarrow>
   distinct (concat (map (\<lambda>i. [i, p - 1 - i]) js))"
proof (induction js)
  case Nil
  then show ?case by simp
next
  case (Cons a js)
  then have a: "2 * a < p - 1" and rest: "\<forall>i\<in>set js. 2 * i < p - 1" and na: "a \<notin> set js"
    by auto
  have "a \<noteq> p - 1 - a" using a by arith
  moreover have "\<And>x. x \<in> set js \<Longrightarrow> a \<noteq> p - 1 - x \<and> p - 1 - a \<noteq> x \<and> p - 1 - a \<noteq> p - 1 - x"
  proof -
    fix x assume x: "x \<in> set js"
    then have "2 * x < p - 1" using rest by blast
    moreover have "a \<noteq> x" using na x by blast
    ultimately show "a \<noteq> p - 1 - x \<and> p - 1 - a \<noteq> x \<and> p - 1 - a \<noteq> p - 1 - x"
      using a by arith
  qed
  ultimately show ?case using Cons by auto
qed

lemma participants_id_inj:
  assumes d: "distinct (map athlete_id roster)"
    and u: "u < length (participants_of roster g)" and v: "v < length (participants_of roster g)"
    and eq: "athlete_id (participants_of roster g ! u) = athlete_id (participants_of roster g ! v)"
    and nb: "athlete_id (participants_of roster g ! u) \<noteq> ''BYE''"
  shows "u = v"
proof -
  have lt: "\<And>w. w < length (participants_of roster g) \<Longrightarrow>
          athlete_id (participants_of roster g ! w) \<noteq> ''BYE'' \<Longrightarrow>
          w < length roster \<and> participants_of roster g ! w = roster ! w"
    by (auto simp: participants_of_def bye_def nth_append less_Suc_eq split: if_splits)
  from lt[OF u nb] lt[OF v] eq nb have
    "u < length roster" "v < length roster" "athlete_id (roster ! u) = athlete_id (roster ! v)"
    by auto
  then have "map athlete_id roster ! u = map athlete_id roster ! v"
    and "u < length (map athlete_id roster)" and "v < length (map athlete_id roster)"
    by simp_all
  with d show ?thesis
    using nth_eq_iff_index_eq by blast
qed

lemma even_length_participants: "even (length (participants_of roster g))"
  by (auto simp: participants_of_def)

lemma round_content_distinct:
  assumes d: "distinct (map athlete_id roster)"
    and perm: "distinct idxs" "set idxs = {0..<length (participants_of roster g)}"
  shows "distinct (concat (map (\<lambda>p. [fst p, snd p]) (round_content (participants_of roster g) idxs)))"
proof -
  let ?ps = "participants_of roster g"
  let ?P = "length ?ps"
  let ?f = "\<lambda>q. athlete_id (?ps ! (idxs ! q))"
  define js where "js = filter (\<lambda>i. played (slot_pair ?ps idxs i)) [0..<?P div 2]"
  define qs where "qs = concat (map (\<lambda>i. [i, ?P - 1 - i]) js)"
  have len: "length idxs = ?P"
    using perm by (metis card_atLeastLessThan diff_zero distinct_card)
  have ev: "even ?P" by (rule even_length_participants)
  have rc: "round_content ?ps idxs = map (slot_pair ?ps idxs) js"
    by (simp add: round_content_def js_def filter_map o_def)
  have ids: "concat (map (\<lambda>p. [fst p, snd p]) (round_content ?ps idxs)) = map ?f qs"
    unfolding rc qs_def by (induction js) (simp_all add: slot_pair_def)
  have js_lt: "\<forall>i\<in>set js. 2 * i < ?P - 1"
    using ev by (auto simp: js_def elim!: evenE)
  have djs: "distinct js" by (simp add: js_def)
  have dqs: "distinct qs" unfolding qs_def by (rule distinct_slot_positions[OF djs js_lt])
  have qs_lt: "\<forall>q\<in>set qs. q < ?P"
    using js_lt by (auto simp: qs_def)
  have qs_nb: "\<forall>q\<in>set qs. ?f q \<noteq> ''BYE''"
    by (auto simp: qs_def js_def played_def slot_pair_def)
  have "inj_on ?f (set qs)"
  proof (rule inj_onI)
    fix q q' assume q: "q \<in> set qs" and q': "q' \<in> set qs" and e: "?f q = ?f q'"
    have a: "idxs ! q < ?P" "idxs ! q' < ?P"
      using qs_lt q q' len perm(2) by (metis atLeastLessThan_iff nth_mem)+
    have "idxs ! q = idxs ! q'"
      using participants_id_inj[OF d a e] qs_nb q by blast
    then show "q = q'"
      using perm(1) len qs_lt q q' by (simp add: nth_eq_iff_index_eq)
  qed
  with dqs have "distinct (map ?f qs)" by (simp add: distinct_map)
  then show ?thesis by (simp only: ids)
qed

subsection \<open>Arithmetic modulo an odd number\<close>

lemma mod_add_cancel_nat:
  fixes a b k m :: nat
  assumes "(a + k) mod m = (b + k) mod m"
  shows "a mod m = b mod m"
proof -
  have "(int a + int k) mod int m = (int b + int k) mod int m"
    using assms by (metis of_nat_add of_nat_mod)
  then have "((int a + int k) - int k) mod int m = ((int b + int k) - int k) mod int m"
    by (rule mod_diff_cong) simp
  then have "int a mod int m = int b mod int m" by simp
  then show ?thesis by (metis of_nat_mod of_nat_eq_iff)
qed

lemma mod_double_cancel:
  fixes a b m :: nat
  assumes "odd m" "(2 * a) mod m = (2 * b) mod m"
  shows "a mod m = b mod m"
proof -
  have "(2 * int a) mod int m = (2 * int b) mod int m"
    using assms(2) by (metis of_nat_mult of_nat_mod of_nat_numeral)
  then have "int m dvd 2 * int a - 2 * int b"
    by (simp add: mod_eq_dvd_iff)
  then have "int m dvd 2 * (int a - int b)" by (simp add: algebra_simps)
  moreover have "coprime (int m) 2" using assms(1) by simp
  ultimately have "int m dvd int a - int b"
    using coprime_dvd_mult_right_iff by blast
  then have "int a mod int m = int b mod int m"
    by (simp add: mod_eq_dvd_iff)
  then show ?thesis by (metis of_nat_mod of_nat_eq_iff)
qed

lemma mod_eq_in_range:
  fixes a b m :: nat
  assumes "a mod m = b mod m" "0 < a" "a \<le> m" "0 < b" "b \<le> m"
  shows "a = b"
  by (metis assms(1,2,3,4,5) leI le_antisym less_irrefl_nat mod_less mod_self)

subsection \<open>The index list in closed form\<close>

lemma rotate_indexes_rotate1:
  "xs \<noteq> [] \<Longrightarrow> rotate_indexes (x # rotate1 xs) = x # xs"
  by (cases xs) auto

lemma rot_closed:
  "r \<le> M \<Longrightarrow> 0 < M \<Longrightarrow> (rotate_indexes ^^ r) [0..<Suc M] = 0 # rotate (M - r) [1..<Suc M]"
proof (induction r)
  case 0
  have "rotate M [1..<Suc M] = [1..<Suc M]"
    by (rule rotate_id) simp
  then show ?case by (simp add: upt_conv_Cons del: upt_Suc)
next
  case (Suc r)
  then have IH: "(rotate_indexes ^^ r) [0..<Suc M] = 0 # rotate (M - r) [1..<Suc M]" by simp
  have "M - r = Suc (M - Suc r)" using Suc.prems by simp
  then have "rotate (M - r) [1..<Suc M] = rotate1 (rotate (M - Suc r) [1..<Suc M])"
    by simp
  moreover have "rotate (M - Suc r) [1..<Suc M] \<noteq> []" using Suc.prems by simp
  ultimately show ?case using IH rotate_indexes_rotate1 by simp
qed

lemma idx_round_closed:
  "r \<le> M \<Longrightarrow> 0 < M \<Longrightarrow> idx_round M r = 0 # rotate (M - r) [1..<Suc M]"
  unfolding idx_round_def by (rule rot_closed)

lemma idx_round_Suc:
  assumes "r \<le> M" "q < M"
  shows "idx_round M r ! Suc q = Suc (((M - r) + q) mod M)"
proof -
  have M: "0 < M" using assms by simp
  have len: "length [1..<Suc M] = M" by simp
  have "idx_round M r ! Suc q = rotate (M - r) [1..<Suc M] ! q"
    by (simp only: idx_round_closed[OF assms(1) M] nth_Cons_Suc)
  also have "\<dots> = [1..<Suc M] ! (((M - r) + q) mod M)"
    using assms nth_rotate[of q "[1..<Suc M]" "M - r"] by (simp only: len)
  also have "\<dots> = 1 + (((M - r) + q) mod M)"
    by (rule nth_upt) (use M in simp)
  finally show ?thesis by simp
qed

lemma idx_round_0:
  assumes "r \<le> M" "0 < M"
  shows "idx_round M r ! 0 = 0"
  by (simp only: idx_round_closed[OF assms] nth_Cons_0)

lemma meet_0:
  assumes "r < M"
  shows "meet M r 0 = {0, Suc (((M - r) + (M - 1)) mod M)}"
proof -
  have "M = Suc (M - 1)" using assms by simp
  then have "idx_round M r ! M = Suc (((M - r) + (M - 1)) mod M)"
    using idx_round_Suc[of r M "M - 1"] assms by simp
  moreover have "idx_round M r ! 0 = 0" using assms by (simp add: idx_round_0)
  ultimately show ?thesis by (simp add: meet_def)
qed

lemma meet_Suc:
  assumes "r < M" "2 * Suc i < Suc M"
  shows "meet M r (Suc i) = {Suc (((M - r) + i) mod M), Suc (((M - r) + (M - 1 - Suc i)) mod M)}"
proof -
  have "M - Suc i = Suc (M - 1 - Suc i)" using assms by arith
  then have "idx_round M r ! (M - Suc i) = Suc (((M - r) + (M - 1 - Suc i)) mod M)"
    using idx_round_Suc[of r M "M - 1 - Suc i"] assms by simp
  moreover have "idx_round M r ! Suc i = Suc (((M - r) + i) mod M)"
    using idx_round_Suc[of r M i] assms by simp
  ultimately show ?thesis by (simp add: meet_def)
qed

lemma meet_round_unique:
  assumes odd: "odd M" and r: "r < M" and r': "r' < M"
    and i: "2 * i < Suc M" and i': "2 * i' < Suc M"
    and eq: "meet M r i = meet M r' i'"
  shows "r = r'"
proof -
  let ?c = "M - r" and ?c' = "M - r'"
  have cr: "0 < ?c" "?c \<le> M" "0 < ?c'" "?c' \<le> M" using r r' by simp_all
  have fin: "?c mod M = ?c' mod M \<Longrightarrow> r = r'"
  proof -
    assume "?c mod M = ?c' mod M"
    then have "?c = ?c'" using cr by (rule mod_eq_in_range)
    then show "r = r'" using r r' by arith
  qed
  show ?thesis
  proof (cases i)
    case 0
    show ?thesis
    proof (cases i')
      case 0
      with \<open>i = 0\<close> eq meet_0[OF r] meet_0[OF r']
      have "(?c + (M - 1)) mod M = (?c' + (M - 1)) mod M"
        by (auto simp: doubleton_eq_iff)
      then have "?c mod M = ?c' mod M" by (rule mod_add_cancel_nat)
      then show ?thesis by (rule fin)
    next
      case (Suc j')
      with \<open>i = 0\<close> eq meet_0[OF r] meet_Suc[OF r', of j'] i'
      show ?thesis by (auto simp: doubleton_eq_iff)
    qed
  next
    case (Suc j)
    show ?thesis
    proof (cases i')
      case 0
      with \<open>i = Suc j\<close> eq meet_0[OF r'] meet_Suc[OF r, of j] i
      show ?thesis by (auto simp: doubleton_eq_iff)
    next
      case (Suc j')
      let ?x = "(?c + j) mod M" and ?y = "(?c + (M - 1 - Suc j)) mod M"
      let ?x' = "(?c' + j') mod M" and ?y' = "(?c' + (M - 1 - Suc j')) mod M"
      from \<open>i = Suc j\<close> \<open>i' = Suc j'\<close> eq meet_Suc[OF r, of j] meet_Suc[OF r', of j'] i i'
      have "{Suc ?x, Suc ?y} = {Suc ?x', Suc ?y'}" by simp
      then have "?x + ?y = ?x' + ?y'" by (auto simp: doubleton_eq_iff)
      then have "(?x + ?y) mod M = (?x' + ?y') mod M" by simp
      then have e1: "((?c + j) + (?c + (M - 1 - Suc j))) mod M = ((?c' + j') + (?c' + (M - 1 - Suc j'))) mod M"
        by (simp only: mod_add_eq)
      have e2: "(?c + j) + (?c + (M - 1 - Suc j)) = 2 * ?c + (M - 2)"
        using i \<open>i = Suc j\<close> by arith
      have e3: "(?c' + j') + (?c' + (M - 1 - Suc j')) = 2 * ?c' + (M - 2)"
        using i' \<open>i' = Suc j'\<close> by arith
      from e1 have "(2 * ?c + (M - 2)) mod M = (2 * ?c' + (M - 2)) mod M"
        by (simp only: e2 e3)
      then have "(2 * ?c) mod M = (2 * ?c') mod M" by (rule mod_add_cancel_nat)
      then have "?c mod M = ?c' mod M" using odd by (rule mod_double_cancel[rotated])
      then show ?thesis by (rule fin)
    qed
  qed
qed

subsection \<open>Every pair of indexes meets exactly once in a cycle\<close>

lemma idx_round_perm:
  "length (idx_round M r) = Suc M \<and> set (idx_round M r) = {0..<Suc M} \<and> distinct (idx_round M r)"
  unfolding idx_round_def using funpow_rotate_indexes_perm[of r "[0..<Suc M]"]
  by (simp del: upt_Suc)

lemma slot_bounds:
  assumes "odd M" "2 * i < Suc M"
  shows "i < M - i" "M - i < Suc M" "i < Suc M div 2"
proof -
  from assms(1) obtain b where "M = 2 * b + 1" by (auto elim: oddE)
  with assms(2) show "i < M - i" "M - i < Suc M" "i < Suc M div 2" by arith+
qed

lemma half_pos: "odd M \<Longrightarrow> 0 < Suc M div 2"
  by (auto elim!: oddE)

lemma meet_card:
  assumes "odd M" "2 * i < Suc M"
  shows "meet M r i \<subseteq> {0..<Suc M} \<and> card (meet M r i) = 2"
proof -
  have lt: "i < M - i" "M - i < Suc M" using slot_bounds[OF assms] by auto
  have p: "length (idx_round M r) = Suc M" "set (idx_round M r) = {0..<Suc M}" "distinct (idx_round M r)"
    using idx_round_perm by auto
  have "idx_round M r ! i \<noteq> idx_round M r ! (M - i)"
    using lt p by (simp add: nth_eq_iff_index_eq)
  moreover have "idx_round M r ! i \<in> {0..<Suc M}" "idx_round M r ! (M - i) \<in> {0..<Suc M}"
    using lt p by (metis nth_mem less_trans)+
  ultimately show ?thesis by (simp add: meet_def)
qed

lemma meet_slot_unique:
  assumes "odd M" "2 * i < Suc M" "2 * i' < Suc M" "meet M r i = meet M r i'"
  shows "i = i'"
proof -
  have lt: "i < M - i" "M - i < Suc M" "i' < M - i'" "M - i' < Suc M"
    using slot_bounds[OF assms(1,2)] slot_bounds[OF assms(1,3)] by auto
  have p: "length (idx_round M r) = Suc M" "distinct (idx_round M r)"
    using idx_round_perm by auto
  have "idx_round M r ! i \<in> meet M r i'" using assms(4) by (auto simp: meet_def)
  then have "idx_round M r ! i = idx_round M r ! i' \<or> idx_round M r ! i = idx_round M r ! (M - i')"
    by (simp add: meet_def)
  then have a: "i = i' \<or> i = M - i'"
    using lt p by (simp add: nth_eq_iff_index_eq)
  have "idx_round M r ! i' \<in> meet M r i" using assms(4) by (auto simp: meet_def)
  then have "idx_round M r ! i' = idx_round M r ! i \<or> idx_round M r ! i' = idx_round M r ! (M - i)"
    by (simp add: meet_def)
  then have b: "i' = i \<or> i' = M - i"
    using lt p by (simp add: nth_eq_iff_index_eq)
  from a b lt show ?thesis by arith
qed

lemma distinct_round_meets:
  assumes "odd M"
  shows "distinct (round_meets M r)"
proof -
  have "inj_on (meet M r) (set [0..<Suc M div 2])"
  proof (rule inj_onI)
    fix i i' assume "i \<in> set [0..<Suc M div 2]" "i' \<in> set [0..<Suc M div 2]" "meet M r i = meet M r i'"
    then show "i = i'" using meet_slot_unique[OF assms, of i i' r] by (simp del: upt_Suc)
  qed
  then show ?thesis unfolding round_meets_def by (simp add: distinct_map del: upt_Suc)
qed

lemma round_meets_elem:
  assumes "odd M" "s \<in> set (round_meets M r)"
  obtains i where "2 * i < Suc M" "s = meet M r i"
proof -
  from assms(2) obtain i where "i < Suc M div 2" "s = meet M r i"
    unfolding round_meets_def by (auto simp del: upt_Suc)
  moreover have "2 * i < Suc M" using \<open>i < Suc M div 2\<close> by arith
  ultimately show ?thesis using that by blast
qed


lemma distinct_cycle_meets:
  assumes "odd M"
  shows "distinct (cycle_meets M)"
  unfolding cycle_meets_def
proof (rule distinct_concat)
  have "inj_on (round_meets M) (set [0..<M])"
  proof (rule inj_onI)
    fix r r' assume r: "r \<in> set [0..<M]" "r' \<in> set [0..<M]" and e: "round_meets M r = round_meets M r'"
    have "meet M r 0 \<in> set (round_meets M r)"
      unfolding round_meets_def using half_pos[OF assms] by (auto simp del: upt_Suc)
    then have "meet M r 0 \<in> set (round_meets M r')" using e by simp
    then obtain i' where "2 * i' < Suc M" "meet M r 0 = meet M r' i'"
      using round_meets_elem[OF assms] by blast
    then show "r = r'" using meet_round_unique[OF assms, of r r' 0 i'] r by simp
  qed
  then show "distinct (map (round_meets M) [0..<M])" by (simp add: distinct_map)
next
  fix ys assume "ys \<in> set (map (round_meets M) [0..<M])"
  then show "distinct ys" using distinct_round_meets[OF assms] by auto
next
  fix ys zs assume ys: "ys \<in> set (map (round_meets M) [0..<M])"
    and zs: "zs \<in> set (map (round_meets M) [0..<M])" and ne: "ys \<noteq> zs"
  from ys obtain r where r: "r < M" "ys = round_meets M r" by auto
  from zs obtain r' where r': "r' < M" "zs = round_meets M r'" by auto
  show "set ys \<inter> set zs = {}"
  proof (rule ccontr)
    assume "set ys \<inter> set zs \<noteq> {}"
    then obtain s where s: "s \<in> set ys" "s \<in> set zs" by blast
    from s(1) r obtain i where i: "2 * i < Suc M" "s = meet M r i"
      using round_meets_elem[OF assms] by blast
    from s(2) r' obtain i' where i': "2 * i' < Suc M" "s = meet M r' i'"
      using round_meets_elem[OF assms] by blast
    have "r = r'" using meet_round_unique[OF assms r(1) r'(1) i(1) i'(1)] i(2) i'(2) by simp
    with r r' ne show False by simp
  qed
qed

lemma length_cycle_meets: "length (cycle_meets M) = M * (Suc M div 2)"
proof -
  have "map length (map (round_meets M) [0..<M]) = map (\<lambda>_. Suc M div 2) [0..<M]"
    unfolding round_meets_def by (simp del: upt_Suc)
  then have "sum_list (map length (map (round_meets M) [0..<M])) = M * (Suc M div 2)"
    by (simp add: sum_list_triv del: upt_Suc map_map)
  then show ?thesis unfolding cycle_meets_def by (simp only: length_concat)
qed

lemma card_two_subsets:
  "card {s. s \<subseteq> {0..<n} \<and> card s = 2} = n * (n - 1) div 2"
  using n_subsets[of "{0..<n}" 2] by (simp add: choose_two)

lemma set_cycle_meets:
  assumes "odd M"
  shows "set (cycle_meets M) = {s. s \<subseteq> {0..<Suc M} \<and> card s = 2}"
proof (rule card_subset_eq)
  show "finite {s. s \<subseteq> {0..<Suc M} \<and> card s = 2}" by simp
  show "set (cycle_meets M) \<subseteq> {s. s \<subseteq> {0..<Suc M} \<and> card s = 2}"
  proof
    fix s assume "s \<in> set (cycle_meets M)"
    then obtain r where "s \<in> set (round_meets M r)" unfolding cycle_meets_def by auto
    then obtain i where "2 * i < Suc M" "s = meet M r i"
      using round_meets_elem[OF assms] by blast
    then show "s \<in> {s. s \<subseteq> {0..<Suc M} \<and> card s = 2}"
      using meet_card[OF assms, of i r] by simp
  qed
  have "card (set (cycle_meets M)) = M * (Suc M div 2)"
    using distinct_card[OF distinct_cycle_meets[OF assms]] length_cycle_meets by simp
  moreover have "Suc M * (Suc M - 1) div 2 = M * (Suc M div 2)"
    using assms by (auto elim!: oddE)
  ultimately show "card (set (cycle_meets M)) = card {s. s \<subseteq> {0..<Suc M} \<and> card s = 2}"
    by (simp only: card_two_subsets)
qed

subsection \<open>From index meetings to the matches of a cycle\<close>

lemma participants_shape:
  assumes "2 \<le> length roster" "''BYE'' \<notin> set (map athlete_id roster)"
  shows "\<exists>M. odd M \<and> length (participants_of roster g) = Suc M \<and> length roster \<le> Suc M"
    and "\<And>u. u < length (participants_of roster g) \<Longrightarrow>
           (athlete_id (participants_of roster g ! u) \<noteq> ''BYE'') = (u < length roster)"
    and "\<And>u. u < length roster \<Longrightarrow> participants_of roster g ! u = roster ! u"
proof -
  show "\<exists>M. odd M \<and> length (participants_of roster g) = Suc M \<and> length roster \<le> Suc M"
  proof (cases "even (length roster)")
    case True
    then have "odd (length roster - 1)" using assms(1) by (cases roster) auto
    moreover have "length (participants_of roster g) = Suc (length roster - 1)"
      using True assms(1) by (simp add: participants_of_def even_iff_mod_2_eq_zero)
    ultimately show ?thesis using assms(1) by (intro exI[of _ "length roster - 1"]) simp
  next
    case False
    then have "length (participants_of roster g) = Suc (length roster)"
      by (simp add: participants_of_def odd_iff_mod_2_eq_one)
    with False show ?thesis by auto
  qed
  show "\<And>u. u < length roster \<Longrightarrow> participants_of roster g ! u = roster ! u"
    by (simp add: participants_of_def nth_append)
  show "\<And>u. u < length (participants_of roster g) \<Longrightarrow>
           (athlete_id (participants_of roster g ! u) \<noteq> ''BYE'') = (u < length roster)"
  proof -
    fix u assume u: "u < length (participants_of roster g)"
    have "u < length roster \<Longrightarrow> athlete_id (roster ! u) \<noteq> ''BYE''"
    proof -
      assume "u < length roster"
      then have "roster ! u \<in> set roster" by (rule nth_mem)
      then have "athlete_id (roster ! u) \<in> set (map athlete_id roster)" by simp
      with assms(2) show "athlete_id (roster ! u) \<noteq> ''BYE''" by metis
    qed
    then show "(athlete_id (participants_of roster g ! u) \<noteq> ''BYE'') = (u < length roster)"
      using u by (auto simp: participants_of_def nth_append bye_def less_Suc_eq split: if_splits)
  qed
qed

lemma map_filter_cong2:
  assumes "\<And>j. j \<in> set js \<Longrightarrow> P1 (g1 j) = P2 (g2 j)"
    and "\<And>j. j \<in> set js \<Longrightarrow> P1 (g1 j) \<Longrightarrow> h1 (g1 j) = h2 (g2 j)"
  shows "map h1 (filter P1 (map g1 js)) = map h2 (filter P2 (map g2 js))"
  using assms by (induction js) auto

lemma round_content_meets:
  assumes n2: "2 \<le> length roster" and nb: "''BYE'' \<notin> set (map athlete_id roster)"
    and M: "odd M" "length (participants_of roster g) = Suc M"
  shows "map pair_set (round_content (participants_of roster g) (idx_round M r)) =
         map (image (\<lambda>u. athlete_id (roster ! u)))
           (filter (\<lambda>s. s \<subseteq> {0..<length roster}) (round_meets M r))"
proof -
  let ?ps = "participants_of roster g"
  let ?idx = "idx_round M r"
  let ?N = "length roster"
  have half: "length ?ps div 2 = Suc M div 2" by (simp only: M(2))
  have p: "length ?idx = Suc M" "set ?idx = {0..<Suc M}"
    using idx_round_perm by auto
  have slot: "\<And>j. j \<in> set [0..<Suc M div 2] \<Longrightarrow>
      ?idx ! j < Suc M \<and> ?idx ! (M - j) < Suc M \<and> length ?ps - 1 - j = M - j"
  proof -
    fix j assume "j \<in> set [0..<Suc M div 2]"
    then have "2 * j < Suc M" by (simp del: upt_Suc)
    then have "j < Suc M" "M - j < Suc M" using slot_bounds[OF M(1)] by auto
    then have "?idx ! j \<in> set ?idx" "?idx ! (M - j) \<in> set ?idx" using p(1) by simp_all
    then show "?idx ! j < Suc M \<and> ?idx ! (M - j) < Suc M \<and> length ?ps - 1 - j = M - j"
      using p(2) M(2) by simp
  qed
  have bye: "\<And>u. u < Suc M \<Longrightarrow> (athlete_id (?ps ! u) \<noteq> ''BYE'') = (u < ?N)"
    using participants_shape(2)[OF n2 nb, of _ g] M(2) by simp
  have same: "\<And>u. u < ?N \<Longrightarrow> ?ps ! u = roster ! u"
    using participants_shape(3)[OF n2 nb] by simp
  have "map pair_set (filter played (map (slot_pair ?ps ?idx) [0..<Suc M div 2])) =
        map (image (\<lambda>u. athlete_id (roster ! u)))
          (filter (\<lambda>s. s \<subseteq> {0..<?N}) (map (meet M r) [0..<Suc M div 2]))"
  proof (rule map_filter_cong2)
    fix j assume j: "j \<in> set [0..<Suc M div 2]"
    from slot[OF j] bye show "played (slot_pair ?ps ?idx j) = (meet M r j \<subseteq> {0..<?N})"
      by (simp add: played_def slot_pair_def meet_def)
  next
    fix j assume j: "j \<in> set [0..<Suc M div 2]" and pl: "played (slot_pair ?ps ?idx j)"
    from slot[OF j] bye pl have "?idx ! j < ?N" "?idx ! (M - j) < ?N"
      by (simp_all add: played_def slot_pair_def)
    with slot[OF j] same
    show "pair_set (slot_pair ?ps ?idx j) = (\<lambda>u. athlete_id (roster ! u)) ` meet M r j"
      by (simp add: pair_set_def slot_pair_def meet_def)
  qed
  then show ?thesis by (simp only: round_content_def round_meets_def half)
qed

lemma map_concat_filter:
  "(\<And>r. r \<in> set rs \<Longrightarrow> map h (c r) = map k (filter P (m r))) \<Longrightarrow>
   map h (concat (map c rs)) = map k (filter P (concat (map m rs)))"
  by (induction rs) auto

lemma cycle_ids:
  assumes n2: "2 \<le> length roster" and nb: "''BYE'' \<notin> set (map athlete_id roster)"
    and M: "odd M" "length (participants_of roster g) = Suc M"
  shows "map match_ids (all_matches (generateRoundsForGroup src k roster g 1)) =
         map (image (\<lambda>u. athlete_id (roster ! u)))
           (filter (\<lambda>s. s \<subseteq> {0..<length roster}) (cycle_meets M))"
proof -
  let ?ps = "participants_of roster g"
  have rc: "rounds_content (generateRoundsForGroup src k roster g 1) =
        map (\<lambda>r. round_content ?ps (idx_round M r)) [0..<M]"
    using generateRounds_content[OF n2, of src k g 1] by (simp add: M(2) idx_round_def del: upt_Suc)
  have "map match_ids (all_matches (generateRoundsForGroup src k roster g 1)) =
        map pair_set (concat (rounds_content (generateRoundsForGroup src k roster g 1)))"
  proof -
    have "match_ids = (\<lambda>m. pair_set (match_pair m))"
      by (rule ext) (simp add: match_ids_def pair_set_def match_pair_def)
    then show ?thesis
      by (simp add: all_matches_def rounds_content_def map_concat o_def)
  qed
  also have "\<dots> = map pair_set (concat (map (\<lambda>r. round_content ?ps (idx_round M r)) [0..<M]))"
    by (simp only: rc)
  also have "\<dots> = map (image (\<lambda>u. athlete_id (roster ! u)))
           (filter (\<lambda>s. s \<subseteq> {0..<length roster}) (concat (map (round_meets M) [0..<M])))"
    by (rule map_concat_filter) (rule round_content_meets[OF n2 nb M])
  finally show ?thesis by (simp only: cycle_meets_def)
qed

lemma kept_meets:
  assumes "odd M" "n \<le> Suc M"
  shows "distinct (filter (\<lambda>s. s \<subseteq> {0..<n}) (cycle_meets M))"
    and "set (filter (\<lambda>s. s \<subseteq> {0..<n}) (cycle_meets M)) = {s. s \<subseteq> {0..<n} \<and> card s = 2}"
    and "length (filter (\<lambda>s. s \<subseteq> {0..<n}) (cycle_meets M)) = n * (n - 1) div 2"
proof -
  show d: "distinct (filter (\<lambda>s. s \<subseteq> {0..<n}) (cycle_meets M))"
    using distinct_cycle_meets[OF assms(1)] by simp
  show s: "set (filter (\<lambda>s. s \<subseteq> {0..<n}) (cycle_meets M)) = {s. s \<subseteq> {0..<n} \<and> card s = 2}"
    using assms(2) by (auto simp: set_cycle_meets[OF assms(1)])
  show "length (filter (\<lambda>s. s \<subseteq> {0..<n}) (cycle_meets M)) = n * (n - 1) div 2"
    using distinct_card[OF d] by (simp only: s card_two_subsets)
qed

lemma count_one:
  assumes "distinct K" "x \<in> set K"
  shows "length (filter (\<lambda>s. s = x) K) = 1"
proof -
  have "{s. s = x} \<inter> set K = {x}" using assms(2) by auto
  then show ?thesis using distinct_length_filter[OF assms(1), of "\<lambda>s. s = x"] by simp
qed

section \<open>C1: one cycle is a complete round-robin\<close>

text \<open>
  C1. For a roster of N athletes and one cycle the claim promises N * (N - 1) / 2 matches,
  every pair of athletes in exactly one of them. The roster [A, BYE] has two athletes, so
  no placeholder is added; the generator all the same drops every match with an athlete
  whose id is the text BYE, and for every id source and group id the cycle of this
  roster is one round without a match, where the claim promises the one match A - BYE.
\<close>

theorem bye_id_roster_loses_match:
  "generateRoundsForGroup src k (map plain_athlete [''A'', ''BYE'']) g 1 =
     [\<lparr>roundNumber = 1, round_groupId = g, matches = []\<rparr>] \<and>
   all_matches (generateRoundsForGroup src k (map plain_athlete [''A'', ''BYE'']) g 1) = [] \<and>
   length (map plain_athlete [''A'', ''BYE'']) * (length (map plain_athlete [''A'', ''BYE'']) - 1) div 2 = 1"
  by (simp add: generateRoundsForGroup_def participants_of_def round_step_def match_step_def
      all_matches_def plain_athlete_def upt_rec)

text \<open>
  Apart from that collision one cycle is a complete round-robin: for every roster of at
  least two athletes none of whose ids is the text BYE, one cycle has exactly
  N * (N - 1) / 2 matches, and when the ids are pairwise distinct every two different
  athletes of the roster meet in exactly one match of the cycle.
\<close>

theorem round_robin_complete:
  assumes n2: "2 \<le> length roster"
    and nb: "''BYE'' \<notin> set (map athlete_id roster)"
  shows "length (all_matches (generateRoundsForGroup src k roster g 1)) =
           length roster * (length roster - 1) div 2 \<and>
         (distinct (map athlete_id roster) \<longrightarrow>
          (\<forall>i j. i < length roster \<and> j < length roster \<and> i \<noteq> j \<longrightarrow>
            length (filter (\<lambda>m. match_ids m = {athlete_id (roster ! i), athlete_id (roster ! j)})
                      (all_matches (generateRoundsForGroup src k roster g 1))) = 1))"
proof -
  let ?N = "length roster"
  let ?f = "\<lambda>u. athlete_id (roster ! u)"
  let ?ms = "all_matches (generateRoundsForGroup src k roster g 1)"
  obtain M where M: "odd M" "length (participants_of roster g) = Suc M" "?N \<le> Suc M"
    using participants_shape(1)[OF n2 nb, of g] by blast
  define K where "K = filter (\<lambda>s. s \<subseteq> {0..<?N}) (cycle_meets M)"
  have ids: "map match_ids ?ms = map (image ?f) K"
    unfolding K_def by (rule cycle_ids[OF n2 nb M(1,2)])
  have dK: "distinct K" and sK: "set K = {s. s \<subseteq> {0..<?N} \<and> card s = 2}"
    and lK: "length K = ?N * (?N - 1) div 2"
    unfolding K_def using kept_meets[OF M(1,3)] by blast+
  have "length ?ms = length (map match_ids ?ms)" by simp
  also have "\<dots> = length K" by (simp only: ids length_map)
  finally have total: "length ?ms = ?N * (?N - 1) div 2" using lK by simp
  have inj: "inj_on ?f {0..<?N}" if d: "distinct (map athlete_id roster)"
  proof (rule inj_onI)
    fix u v assume "u \<in> {0..<?N}" "v \<in> {0..<?N}" "?f u = ?f v"
    then have "u < length (map athlete_id roster)" "v < length (map athlete_id roster)"
      "map athlete_id roster ! u = map athlete_id roster ! v" by simp_all
    with d show "u = v" using nth_eq_iff_index_eq by blast
  qed
  have once: "length (filter (\<lambda>m. match_ids m = {?f i, ?f j}) ?ms) = 1"
    if d: "distinct (map athlete_id roster)" and ij: "i < ?N" "j < ?N" "i \<noteq> j" for i j
  proof -
    have mem: "{i, j} \<in> set K" using ij by (simp add: sK)
    have "length (filter (\<lambda>m. match_ids m = {?f i, ?f j}) ?ms) =
          length (filter (\<lambda>S. S = {?f i, ?f j}) (map match_ids ?ms))"
      by (simp add: filter_map o_def)
    also have "\<dots> = length (filter (\<lambda>s. ?f ` s = {?f i, ?f j}) K)"
      by (simp only: ids) (simp add: filter_map o_def)
    also have "filter (\<lambda>s. ?f ` s = {?f i, ?f j}) K = filter (\<lambda>s. s = {i, j}) K"
    proof (rule filter_cong[OF refl])
      fix s assume "s \<in> set K"
      then have sub: "s \<subseteq> {0..<?N}" by (simp add: sK)
      have sub': "{i, j} \<subseteq> {0..<?N}" using ij by simp
      have "(?f ` s = ?f ` {i, j}) = (s = {i, j})"
        by (rule inj_on_image_eq_iff[OF inj[OF d] sub sub'])
      then show "(?f ` s = {?f i, ?f j}) = (s = {i, j})" by simp
    qed
    also have "length (filter (\<lambda>s. s = {i, j}) K) = 1" by (rule count_one[OF dK mem])
    finally show ?thesis .
  qed
  show ?thesis using total once by blast
qed

text \<open>A roster of three athletes: three matches, and A meets C exactly once.\<close>

lemma round_robin_three_athletes:
  "length (all_matches (generateRoundsForGroup (\<lambda>k. ([], [])) 0
       (map plain_athlete [''A'', ''B'', ''C'']) ''g'' 1)) = 3 \<and>
   length (filter (\<lambda>m. match_ids m = {''A'', ''C''})
       (all_matches (generateRoundsForGroup (\<lambda>k. ([], [])) 0
          (map plain_athlete [''A'', ''B'', ''C'']) ''g'' 1))) = 1"
proof -
  let ?r = "map plain_athlete [''A'', ''B'', ''C'']"
  have h1: "2 \<le> length ?r" by simp
  have h2: "distinct (map athlete_id ?r)" by (simp add: plain_athlete_def)
  have h3: "''BYE'' \<notin> set (map athlete_id ?r)" by (simp add: plain_athlete_def)
  from round_robin_complete[OF h1 h3, of "\<lambda>k. ([], [])" 0 "''g''"] h2
  have a: "length (all_matches (generateRoundsForGroup (\<lambda>k. ([], [])) 0 ?r ''g'' 1)) =
           length ?r * (length ?r - 1) div 2"
    and b: "\<And>i j. i < length ?r \<Longrightarrow> j < length ?r \<Longrightarrow> i \<noteq> j \<Longrightarrow>
            length (filter (\<lambda>m. match_ids m = {athlete_id (?r ! i), athlete_id (?r ! j)})
                      (all_matches (generateRoundsForGroup (\<lambda>k. ([], [])) 0 ?r ''g'' 1))) = 1"
    by blast+
  from a have a': "length (all_matches (generateRoundsForGroup (\<lambda>k. ([], [])) 0 ?r ''g'' 1)) = 3"
    by simp
  from b[of 0 2] have b': "length (filter (\<lambda>m. match_ids m = {''A'', ''C''})
       (all_matches (generateRoundsForGroup (\<lambda>k. ([], [])) 0 ?r ''g'' 1))) = 1"
    by (simp add: plain_athlete_def)
  from a' b' show ?thesis by blast
qed

section \<open>C8: no athlete twice in a round\<close>

lemma round_of_generate:
  assumes "R \<in> set (generateRoundsForGroup src k roster g c)"
  shows "\<exists>j. map match_pair (matches R) =
           round_content (participants_of roster g)
             ((rotate_indexes ^^ j) [0..<length (participants_of roster g)])"
proof (cases "2 \<le> length roster")
  case True
  have "map match_pair (matches R) \<in> set (rounds_content (generateRoundsForGroup src k roster g c))"
    using assms by (auto simp: rounds_content_def)
  then show ?thesis unfolding generateRounds_content[OF True] by auto
next
  case False
  then show ?thesis using assms by (simp add: generateRoundsForGroup_def)
qed

lemma distinct_concat_pairs_disjoint:
  assumes "distinct (concat (map (\<lambda>p. [fst p, snd p]) ps))" "i < j" "j < length ps"
  shows "pair_set (ps ! i) \<inter> pair_set (ps ! j) = {}"
  using assms
proof (induction ps arbitrary: i j)
  case Nil
  then show ?case by simp
next
  case (Cons p ps)
  show ?case
  proof (cases i)
    case 0
    with Cons.prems obtain j' where j': "j = Suc j'" "j' < length ps" by (cases j) auto
    then have "ps ! j' \<in> set ps" by simp
    then have "fst (ps ! j') \<in> set (concat (map (\<lambda>p. [fst p, snd p]) ps))"
      "snd (ps ! j') \<in> set (concat (map (\<lambda>p. [fst p, snd p]) ps))" by auto
    with Cons.prems(1) 0 j' show ?thesis by (auto simp: pair_set_def)
  next
    case (Suc i')
    with Cons.prems obtain j' where j': "j = Suc j'" "i' < j'" "j' < length ps" by (cases j) auto
    from Cons.prems(1) have "distinct (concat (map (\<lambda>p. [fst p, snd p]) ps))" by simp
    from Cons.IH[OF this j'(2,3)] Suc j' show ?thesis by simp
  qed
qed

text \<open>
  C8 (amended). For every roster whose athlete ids are pairwise distinct and every number
  of cycles, no athlete id occurs in two matches of one round of
  \<open>generateRoundsForGroup\<close>: the id sets of two different matches of a round are
  disjoint.
\<close>

theorem round_athletes_disjoint:
  assumes d: "distinct (map athlete_id roster)"
    and R: "R \<in> set (generateRoundsForGroup src k roster g c)"
    and ij: "i < j" "j < length (matches R)"
  shows "match_ids (matches R ! i) \<inter> match_ids (matches R ! j) = {}"
proof -
  let ?ps = "participants_of roster g"
  from round_of_generate[OF R] obtain n where
    n: "map match_pair (matches R) = round_content ?ps ((rotate_indexes ^^ n) [0..<length ?ps])"
    by blast
  have perm: "distinct ((rotate_indexes ^^ n) [0..<length ?ps])"
    "set ((rotate_indexes ^^ n) [0..<length ?ps]) = {0..<length ?ps}"
    using funpow_rotate_indexes_perm[of n "[0..<length ?ps]"] by simp_all
  have dc: "distinct (concat (map (\<lambda>p. [fst p, snd p]) (map match_pair (matches R))))"
    unfolding n by (rule round_content_distinct[OF d perm])
  have jl: "j < length (map match_pair (matches R))" using ij by simp
  have "pair_set (map match_pair (matches R) ! i) \<inter> pair_set (map match_pair (matches R) ! j) = {}"
    by (rule distinct_concat_pairs_disjoint[OF dc ij(1) jl])
  then show ?thesis using ij by (simp add: pair_set_def match_pair_def match_ids_def)
qed

lemma four_rounds:
  "map (\<lambda>r. map match_pair (matches r))
     (generateRoundsForGroup (\<lambda>k. ([], [])) 0 (map plain_athlete [''A'', ''B'', ''C'', ''D'']) ''g'' 1) =
   [[(''A'', ''D''), (''B'', ''C'')], [(''A'', ''C''), (''D'', ''B'')], [(''A'', ''B''), (''C'', ''D'')]]"
  by (simp add: generateRoundsForGroup_def participants_of_def round_step_def match_step_def
      match_pair_def plain_athlete_def upt_rec)

text \<open>The two matches of the first round of the roster [A, B, C, D] share no athlete.\<close>

theorem round_athletes_disjoint_witness:
  "match_ids (matches (hd (generateRoundsForGroup (\<lambda>k. ([], [])) 0
       (map plain_athlete [''A'', ''B'', ''C'', ''D'']) ''g'' 1)) ! 0) \<inter>
   match_ids (matches (hd (generateRoundsForGroup (\<lambda>k. ([], [])) 0
       (map plain_athlete [''A'', ''B'', ''C'', ''D'']) ''g'' 1)) ! 1) = {}"
proof -
  let ?rs = "generateRoundsForGroup (\<lambda>k. ([], [])) 0 (map plain_athlete [''A'', ''B'', ''C'', ''D'']) ''g'' 1"
  have d: "distinct (map athlete_id (map plain_athlete [''A'', ''B'', ''C'', ''D'']))"
    by (simp add: plain_athlete_def)
  have len: "map (\<lambda>r. length (matches r)) ?rs = [2, 2, 2]"
    using arg_cong[OF four_rounds, of "map length"] by (simp add: o_def)
  then have ne: "?rs \<noteq> []" by auto
  then have R: "hd ?rs \<in> set ?rs" by simp
  have l: "1 < length (matches (hd ?rs))" using len ne by (cases ?rs) auto
  show ?thesis by (rule round_athletes_disjoint[OF d R _ l]) simp
qed

text \<open>
  The claim as stated fails when two entries of the roster carry the same id: for the
  roster with ids [A, A, B, C] the first round holds the matches A-C and A-B, so the id A
  occurs in two matches of one round.
\<close>

theorem round_duplicate_id_counterexample:
  "\<exists>R \<in> set (generateRoundsForGroup (\<lambda>k. ([], [])) 0
              (map plain_athlete [''A'', ''A'', ''B'', ''C'']) ''g'' 1).
     length (matches R) = 2 \<and> ''A'' \<in> match_ids (matches R ! 0) \<inter> match_ids (matches R ! 1)"
  by (simp add: generateRoundsForGroup_def participants_of_def round_step_def match_step_def
      match_ids_def plain_athlete_def upt_rec)

section \<open>C10: athlete statistics only for scheduled athletes\<close>

lemma athlete_stats_of_Some:
  assumes "athlete_stats_of es gm mr a = Some st"
  shows "stats_athleteId st = athlete_id a \<and>
         stats_matchCount st = length (filter (involves (athlete_id a)) es) \<and>
         0 < stats_matchCount st"
  using assms
  by (auto simp: athlete_stats_of_def athleteMatches_def Let_def split: if_splits option.splits)

text \<open>
  C10. \<open>computeAthleteStats\<close> returns a record only for athletes of the roster that
  appear in at least one entry, each with a positive match count; an athlete (id \<open>x\<close>)
  that no entry involves has no record at all.
\<close>

theorem athlete_stats_only_for_scheduled:
  "(\<forall>st \<in> set (computeAthleteStats es roster gm mr).
      0 < stats_matchCount st \<and>
      (\<exists>a \<in> set roster. stats_athleteId st = athlete_id a) \<and>
      (\<exists>e \<in> set es. involves (stats_athleteId st) e)) \<and>
   ((\<forall>e \<in> set es. \<not> involves x e) \<longrightarrow>
      x \<notin> stats_athleteId ` set (computeAthleteStats es roster gm mr))"
proof -
  have main: "0 < stats_matchCount st \<and> (\<exists>a \<in> set roster. stats_athleteId st = athlete_id a) \<and>
      (\<exists>e \<in> set es. involves (stats_athleteId st) e)"
    if "st \<in> set (computeAthleteStats es roster gm mr)" for st
  proof -
    from that obtain a where a: "a \<in> set roster" "athlete_stats_of es gm mr a = Some st"
      by (auto simp: computeAthleteStats_def split: option.splits)
    from athlete_stats_of_Some[OF a(2)] have
      i: "stats_athleteId st = athlete_id a" and
      c: "stats_matchCount st = length (filter (involves (athlete_id a)) es)" and
      p: "0 < stats_matchCount st" by auto
    from c p have "filter (involves (athlete_id a)) es \<noteq> []" by auto
    then obtain e where "e \<in> set es" "involves (athlete_id a) e"
      by (metis filter_False)
    with a(1) i p show ?thesis by auto
  qed
  then show ?thesis by blast
qed

text \<open>With one entry A-B and the roster [A, B, C], C has no record and A and B have one match each.\<close>

theorem athlete_stats_only_for_scheduled_witness:
  "''C'' \<notin> stats_athleteId `
      set (computeAthleteStats [sample_entry ''A'' ''B'' 0]
             (map plain_athlete [''A'', ''B'', ''C''])
             [(''g'', \<lparr>group_id = ''g'', group_name = ''G'', group_areaId = ''a1'',
                       athletes = map plain_athlete [''A'', ''B'', ''C'']\<rparr>)] 0) \<and>
   map stats_matchCount
      (computeAthleteStats [sample_entry ''A'' ''B'' 0]
             (map plain_athlete [''A'', ''B'', ''C''])
             [(''g'', \<lparr>group_id = ''g'', group_name = ''G'', group_areaId = ''a1'',
                       athletes = map plain_athlete [''A'', ''B'', ''C'']\<rparr>)] 0) = [1, 1]"
proof -
  have h: "\<forall>e \<in> set [sample_entry ''A'' ''B'' 0]. \<not> involves ''C'' e"
    by (simp add: involves_def sample_entry_def)
  have ev: "map stats_matchCount
      (computeAthleteStats [sample_entry ''A'' ''B'' 0]
             (map plain_athlete [''A'', ''B'', ''C''])
             [(''g'', \<lparr>group_id = ''g'', group_name = ''G'', group_areaId = ''a1'',
                       athletes = map plain_athlete [''A'', ''B'', ''C'']\<rparr>)] 0) = [1, 1]"
    by (simp add: computeAthleteStats_def athlete_stats_of_def athleteMatches_def involves_def
        sample_entry_def plain_athlete_def Let_def)
  from athlete_stats_only_for_scheduled[of "[sample_entry ''A'' ''B'' 0]"
      "map plain_athlete [''A'', ''B'', ''C'']" _ 0 "''C''"] h ev
  show ?thesis by blast
qed

section \<open>C5: a window too short for one match\<close>

text \<open>
  C5. When both times parse and \<open>parseTime(startTime) + fightDuration > parseTime(endTime)\<close>,
  \<open>generateTimeBoxedSchedule\<close> returns the empty schedule: no entry, zero total
  matches, and the single warning TIME_OVERFLOW of severity error. No area is processed:
  the result is the same whatever the areas of the event are.
\<close>

theorem insufficient_window:
  assumes "parseTime num (startTime ev) = Inr windowStart"
    and "parseTime num (endTime ev) = Inr windowEnd"
    and "windowStart + fightDuration ev > windowEnd"
  shows "generateTimeBoxedSchedule num src ev = Some (Inr (empty_result ev)) \<and>
         entries (generated_schedule (empty_result ev)) = [] \<and>
         stats_totalMatches (stats (generated_schedule (empty_result ev))) = 0 \<and>
         generated_warnings (empty_result ev) = [time_overflow_warning ev] \<and>
         warning_type (time_overflow_warning ev) = TIME_OVERFLOW \<and>
         warning_severity (time_overflow_warning ev) = Sev_error \<and>
         (\<forall>as. generateTimeBoxedSchedule num src (ev\<lparr>areas := as\<rparr>) =
               generateTimeBoxedSchedule num src ev)"
  using assms
  by (simp add: generateTimeBoxedSchedule_def empty_result_def time_overflow_warning_def)

text \<open>Scenario C: the window 09:00 to 09:01 and fights of 120 seconds.\<close>

lemma parse_0900: "parseTime decimal_Number ''09:00'' = Inr 32400"
  by code_simp

lemma parse_0901: "parseTime decimal_Number ''09:01'' = Inr 32460"
  by code_simp

theorem insufficient_window_witness:
  "generateTimeBoxedSchedule decimal_Number sample_ids
     (event_of ''09:00'' ''09:01'' 120 30 0 [area_of ''a1'' [group_of ''g1'' [''x'', ''y'']]]) =
   Some (Inr (empty_result
     (event_of ''09:00'' ''09:01'' 120 30 0 [area_of ''a1'' [group_of ''g1'' [''x'', ''y'']]])))"
proof -
  let ?ev = "event_of ''09:00'' ''09:01'' 120 30 0 [area_of ''a1'' [group_of ''g1'' [''x'', ''y'']]]"
  have s: "parseTime decimal_Number (startTime ?ev) = Inr 32400"
    using parse_0900 by (simp add: event_of_def)
  have e: "parseTime decimal_Number (endTime ?ev) = Inr 32460"
    using parse_0901 by (simp add: event_of_def)
  have d: "32400 + fightDuration ?ev > 32460" by (simp add: event_of_def)
  from insufficient_window[OF s e d, of sample_ids] show ?thesis by blast
qed

section \<open>Scenario A: the roster [A, B, C, D], one cycle\<close>

text \<open>
  C7. For the roster [A, B, C, D] and one cycle the documented order of rounds is
  (A-B, C-D), (A-C, D-B), (A-D, B-C). The code pairs position \<open>i\<close> with position
  \<open>last - i\<close> before the first rotation, so it returns three rounds and six matches
  in the order (A-D, B-C), (A-C, D-B), (A-B, C-D): the first and the third round are
  exchanged with respect to the documentation.
\<close>

theorem scenario_A_rounds:
  "map (\<lambda>r. map match_pair (matches r))
     (generateRoundsForGroup src k
        [\<lparr>athlete_id = ''A'', athlete_name = n1, athlete_groupId = g1\<rparr>,
         \<lparr>athlete_id = ''B'', athlete_name = n2, athlete_groupId = g2\<rparr>,
         \<lparr>athlete_id = ''C'', athlete_name = n3, athlete_groupId = g3\<rparr>,
         \<lparr>athlete_id = ''D'', athlete_name = n4, athlete_groupId = g4\<rparr>] g 1) =
   [[(''A'', ''D''), (''B'', ''C'')], [(''A'', ''C''), (''D'', ''B'')], [(''A'', ''B''), (''C'', ''D'')]]"
  by (simp add: generateRoundsForGroup_def participants_of_def round_step_def match_step_def
      match_pair_def upt_rec)

section \<open>The time-boxed loop: one pass and an invariant rule\<close>

lemma timeBoxedLoop_rule:
  assumes run: "timeBoxedLoop src ar gs fd rot we mr s = Some (Inr t)"
    and init: "I s"
    and step: "\<And>s s'. I s \<Longrightarrow> currentTime s + fd \<le> we \<Longrightarrow>
                 loop_body src ar gs fd rot we mr s = Inr (Continue s') \<Longrightarrow> I s'"
    and brk: "\<And>s s'. I s \<Longrightarrow> currentTime s + fd \<le> we \<Longrightarrow>
                 loop_body src ar gs fd rot we mr s = Inr (Break s') \<Longrightarrow> I s'"
  shows "I t"
proof -
  let ?P = "\<lambda>src' ar' gs' fd' rot' we' mr' (s::loop_state) (y::error + loop_state).
          (src', ar', gs', fd', rot', we', mr') = (src, ar, gs, fd, rot, we, mr) \<longrightarrow>
          I s \<longrightarrow> (\<forall>t. y = Inr t \<longrightarrow> I t)"
  have "?P src ar gs fd rot we mr s (Inr t)"
  proof (rule timeBoxedLoop.raw_induct[where P = ?P, OF _ run])
    fix loop src' ar' gs' fd' rot' we' mr' s y
    assume IH: "\<And>src' ar' gs' fd' rot' we' mr' s y.
                  loop src' ar' gs' fd' rot' we' mr' s = Some y \<Longrightarrow> ?P src' ar' gs' fd' rot' we' mr' s y"
      and body: "(if currentTime s + fd' \<le> we'
           then case loop_body src' ar' gs' fd' rot' we' mr' s of
                  Inl e \<Rightarrow> Some (Inl e)
                | Inr (Break s') \<Rightarrow> Some (Inr s')
                | Inr (Continue s') \<Rightarrow> loop src' ar' gs' fd' rot' we' mr' s'
           else Some (Inr s)) = Some y"
    show "?P src' ar' gs' fd' rot' we' mr' s y"
    proof (intro impI allI)
      fix t
      assume eqs: "(src', ar', gs', fd', rot', we', mr') = (src, ar, gs, fd, rot, we, mr)"
        and Is: "I s" and y: "y = Inr t"
      from eqs have e: "src' = src" "ar' = ar" "gs' = gs" "fd' = fd" "rot' = rot" "we' = we" "mr' = mr"
        by simp_all
      note body' = body[unfolded e y]
      show "I t"
      proof (cases "currentTime s + fd \<le> we")
        case False
        with body' Is show ?thesis by simp
      next
        case True
        show ?thesis
        proof (cases "loop_body src ar gs fd rot we mr s")
          case (Inl e)
          with body' True show ?thesis by simp
        next
          case (Inr fl)
          show ?thesis
          proof (cases fl)
            case (Break s')
            with Inr body' True have "s' = t" by simp
            with brk[OF Is True] Inr Break show ?thesis by simp
          next
            case (Continue s')
            with Inr body' True have l: "loop src ar gs fd rot we mr s' = Some (Inr t)" by simp
            have "I s'" using step[OF Is True] Inr Continue by simp
            with IH[OF l] show ?thesis by simp
          qed
        qed
      qed
    qed
  qed
  with init show ?thesis by simp
qed

text \<open>What a pass of the loop does.\<close>

lemma findBestPair_Some:
  assumes "findBestPairForGroup g st now mr = Inr (Some c)"
  shows "\<exists>cands. collect (candidate_of st (avgMatches g st) now) (all_pairs (athletes g)) = Inr cands \<and>
           c \<in> set cands \<and>
           (isRematch c \<longrightarrow> (\<forall>c' \<in> set cands. isRematch c'))"
proof -
  from assms obtain cands where
    cs: "collect (candidate_of st (avgMatches g st) now) (all_pairs (athletes g)) = Inr cands"
    by (auto simp: findBestPairForGroup_def split: sum.splits)
  let ?new = "filter (\<lambda>c. \<not> isRematch c) cands" and ?re = "filter isRematch cands"
  have hd_in: "\<And>xs :: candidate list. xs \<noteq> [] \<Longrightarrow> hd (sort_key fairnessScore xs) \<in> set xs"
  proof -
    fix xs :: "candidate list" assume "xs \<noteq> []"
    then have "set (sort_key fairnessScore xs) \<noteq> {}" by simp
    then have "sort_key fairnessScore xs \<noteq> []" by (metis set_empty)
    then have "hd (sort_key fairnessScore xs) \<in> set (sort_key fairnessScore xs)" by (rule hd_in_set)
    then show "hd (sort_key fairnessScore xs) \<in> set xs" by simp
  qed
  show ?thesis
  proof (cases "?new = []")
    case False
    with assms cs have "c = hd (sort_key fairnessScore ?new)"
      by (simp add: findBestPairForGroup_def Let_def)
    with hd_in[OF False] have "c \<in> set ?new" by simp
    then show ?thesis using cs by auto
  next
    case True
    then have all: "\<forall>c' \<in> set cands. isRematch c'" by (auto simp: filter_empty_conv)
    from True assms cs have ne: "?re \<noteq> []" and "c = hd (sort_key fairnessScore ?re)"
      by (auto simp: findBestPairForGroup_def Let_def split: if_splits)
    with hd_in[OF ne] have "c \<in> set ?re" by simp
    then show ?thesis using cs all by auto
  qed
qed

lemma collect_Inr:
  assumes "collect f xs = Inr ys"
  shows "(\<forall>x \<in> set xs. \<exists>r. f x = Inr r) \<and> set ys = {y. \<exists>x \<in> set xs. f x = Inr (Some y)}"
  using assms
proof (induction xs arbitrary: ys)
  case Nil
  then show ?case by simp
next
  case (Cons x xs)
  from Cons.prems obtain r rs where r: "f x = Inr r" and rs: "collect f xs = Inr rs"
    and ys: "ys = (case r of None \<Rightarrow> rs | Some y \<Rightarrow> y # rs)"
    by (auto split: sum.splits)
  from Cons.IH[OF rs] have IH: "(\<forall>x \<in> set xs. \<exists>r. f x = Inr r)"
    "set rs = {y. \<exists>x \<in> set xs. f x = Inr (Some y)}" by auto
  show ?case
  proof (cases r)
    case None
    with r ys IH show ?thesis by auto
  next
    case (Some y)
    with r ys IH show ?thesis by auto
  qed
qed

lemma candidate_of_Some:
  assumes "candidate_of st avg now p = Inr (Some c)"
  shows "\<exists>s1 s2. map_of (athleteStates st) (athlete_id (fst p)) = Some s1 \<and>
           map_of (athleteStates st) (athlete_id (snd p)) = Some s2 \<and>
           availableAt s1 \<le> now \<and> availableAt s2 \<le> now \<and>
           athlete1 c = fst p \<and> athlete2 c = snd p \<and>
           isRematch c = (athlete_id (snd p) \<in> opponents s1)"
  using assms
  by (auto simp: candidate_of_def Let_def split: option.splits if_splits)

lemma commit_match_Inr:
  assumes "commit_match src ar gid st c fd rot mr s = Inr s'"
  shows "s' = s\<lparr>currentTime := currentTime s + fd + rot,
              loop_sequenceNumber := loop_sequenceNumber s + 1,
              groupStates := AList.update gid
                 (st\<lparr>athleteStates := states_after (athlete_id (athlete1 c)) (athlete_id (athlete2 c))
                                         (currentTime s + fd) mr (athleteStates st),
                     totalMatches := totalMatches st + 1,
                     lastScheduledTime := currentTime s\<rparr>) (groupStates s),
              loop_entries := loop_entries s @ [new_entry src ar gid c fd s],
              idCounter := idCounter s + 2\<rparr>"
  using assms
  by (auto simp: commit_match_def new_entry_def states_after_def Let_def split: option.splits)

lemma loop_body_Break: "loop_body src ar gs fd rot we mr s = Inr (Break s') \<Longrightarrow> s' = s"
  by (auto simp: loop_body_def Let_def split: sum.splits if_splits option.splits prod.splits)

lemma loop_body_Continue:
  assumes "loop_body src ar gs fd rot we mr s = Inr (Continue s')"
  shows "(\<exists>next. s' = s\<lparr>currentTime := next\<rparr>) \<or>
         (\<exists>gid g st c. find (\<lambda>g. group_id g = gid) gs = Some g \<and>
            map_of (groupStates s) gid = Some st \<and>
            findBestPairForGroup g st (currentTime s) mr = Inr (Some c) \<and>
            commit_match src ar gid st c fd rot mr s = Inr s')"
  using assms
  by (auto simp: loop_body_def Let_def split: sum.splits if_splits option.splits prod.splits)

section \<open>From the areas to the event\<close>

lemma scheduleArea_Inr:
  assumes "scheduleTimeBoxedMatchesForArea src k ar gs fd rot ws we mr = Some (Inr (es, k'))"
  shows "\<exists>t. timeBoxedLoop src ar gs fd rot we mr
              \<lparr>currentTime = ws, loop_sequenceNumber = 0,
               groupStates = initial_group_states ws gs, loop_entries = [], idCounter = k\<rparr> =
              Some (Inr t) \<and> es = loop_entries t \<and> k' = idCounter t"
  using assms
  by (auto simp: scheduleTimeBoxedMatchesForArea_def split: option.splits sum.splits)

text \<open>The entries of an area that the loop over the areas schedules or skips.\<close>

lemma schedule_areas_structure:
  assumes "schedule_areas src fd rot ws we mr as acc = Some (Inr res)"
  shows "\<exists>ess. fst res = fst acc @ concat ess \<and>
           list_all2 (\<lambda>ar es. es = [] \<or>
                        (\<exists>k k'. scheduleTimeBoxedMatchesForArea src k ar (validGroups ar) fd rot ws we mr =
                                  Some (Inr (es, k')))) as ess \<and>
           fst (snd res) = fst (snd acc) @
              map no_valid_group_warning
                (filter (\<lambda>ar. length (groups ar) \<noteq> 0 \<and> length (validGroups ar) = 0) as)"
  using assms
proof (induction as arbitrary: acc)
  case Nil
  then show ?case by auto
next
  case (Cons ar as)
  let ?Q = "\<lambda>ar es. es = [] \<or>
                        (\<exists>k k'. scheduleTimeBoxedMatchesForArea src k ar (validGroups ar) fd rot ws we mr =
                                  Some (Inr (es, k')))"
  show ?case
  proof (cases "length (groups ar) = 0")
    case True
    with Cons.prems have "schedule_areas src fd rot ws we mr as acc = Some (Inr res)" by simp
    from Cons.IH[OF this] obtain ess where
      "fst res = fst acc @ concat ess" "list_all2 ?Q as ess"
      "fst (snd res) = fst (snd acc) @ map no_valid_group_warning
                (filter (\<lambda>ar. length (groups ar) \<noteq> 0 \<and> length (validGroups ar) = 0) as)"
      by blast
    then have "fst res = fst acc @ concat ([] # ess)" "list_all2 ?Q (ar # as) ([] # ess)"
      "fst (snd res) = fst (snd acc) @ map no_valid_group_warning
                (filter (\<lambda>ar. length (groups ar) \<noteq> 0 \<and> length (validGroups ar) = 0) (ar # as))"
      using True by simp_all
    then show ?thesis by blast
  next
    case False
    note ng = False
    show ?thesis
    proof (cases "length (validGroups ar) = 0")
      case True
      with Cons.prems ng have "schedule_areas src fd rot ws we mr as
          (fst acc, fst (snd acc) @ [no_valid_group_warning ar], snd (snd acc)) = Some (Inr res)"
        by simp
      from Cons.IH[OF this] obtain ess where
        "fst res = fst acc @ concat ess" "list_all2 ?Q as ess"
        "fst (snd res) = (fst (snd acc) @ [no_valid_group_warning ar]) @ map no_valid_group_warning
                (filter (\<lambda>ar. length (groups ar) \<noteq> 0 \<and> length (validGroups ar) = 0) as)"
        by auto
      then have "fst res = fst acc @ concat ([] # ess)" "list_all2 ?Q (ar # as) ([] # ess)"
        "fst (snd res) = fst (snd acc) @ map no_valid_group_warning
                (filter (\<lambda>ar. length (groups ar) \<noteq> 0 \<and> length (validGroups ar) = 0) (ar # as))"
        using True ng by simp_all
      then show ?thesis by blast
    next
      case False
      with Cons.prems ng obtain es k where
        ar: "scheduleTimeBoxedMatchesForArea src (snd (snd acc)) ar (validGroups ar) fd rot ws we mr =
               Some (Inr (es, k))"
        and rest: "schedule_areas src fd rot ws we mr as (fst acc @ es, fst (snd acc), k) = Some (Inr res)"
        by (auto split: option.splits sum.splits)
      from Cons.IH[OF rest] obtain ess where
        "fst res = (fst acc @ es) @ concat ess" "list_all2 ?Q as ess"
        "fst (snd res) = fst (snd acc) @ map no_valid_group_warning
                (filter (\<lambda>ar. length (groups ar) \<noteq> 0 \<and> length (validGroups ar) = 0) as)"
        by auto
      then have "fst res = fst acc @ concat (es # ess)" "list_all2 ?Q (ar # as) (es # ess)"
        "fst (snd res) = fst (snd acc) @ map no_valid_group_warning
                (filter (\<lambda>ar. length (groups ar) \<noteq> 0 \<and> length (validGroups ar) = 0) (ar # as))"
        using False ng ar by auto
      then show ?thesis by blast
    qed
  qed
qed

lemma generate_Inr:
  assumes "generateTimeBoxedSchedule num src ev = Some (Inr r)"
  shows "\<exists>ws we. parseTime num (startTime ev) = Inr ws \<and> parseTime num (endTime ev) = Inr we \<and>
           ((ws + fightDuration ev > we \<and> r = empty_result ev) \<or>
            (\<not> ws + fightDuration ev > we \<and>
             (\<exists>all aw k tbs.
                schedule_areas src (fightDuration ev) (rotationTime ev) ws we (minRestOf ev) (areas ev)
                  ([], [], 0) = Some (Inr (all, aw, k)) \<and>
                computeTimeBoxedStats num all ev = Inr tbs \<and>
                r = assemble ev ws we all aw tbs)))"
  using assms
  by (auto simp: generateTimeBoxedSchedule_def split: sum.splits option.splits if_splits)

lemma entries_assemble [simp]:
  "entries (generated_schedule (assemble ev ws we all aw tbs)) = all"
  by (simp add: assemble_def Let_def)

lemma entries_empty_result [simp]: "entries (generated_schedule (empty_result ev)) = []"
  by (simp add: empty_result_def)

lemma list_all2_right_elem:
  "list_all2 P xs ys \<Longrightarrow> y \<in> set ys \<Longrightarrow> \<exists>x \<in> set xs. P x y"
  by (induction rule: list_all2_induct) auto

text \<open>A property of the single entries carries over from the areas to the event.\<close>

lemma generate_entries_all:
  assumes run: "generateTimeBoxedSchedule num src ev = Some (Inr r)"
    and we: "parseTime num (endTime ev) = Inr we"
    and area: "\<And>ws k ar es k'. parseTime num (startTime ev) = Inr ws \<Longrightarrow>
        scheduleTimeBoxedMatchesForArea src k ar (validGroups ar) (fightDuration ev) (rotationTime ev)
          ws we (minRestOf ev) = Some (Inr (es, k')) \<Longrightarrow> \<forall>e \<in> set es. Q e"
  shows "\<forall>e \<in> set (entries (generated_schedule r)). Q e"
proof -
  from generate_Inr[OF run] obtain ws we' where
    ws: "parseTime num (startTime ev) = Inr ws" and we': "parseTime num (endTime ev) = Inr we'" and
    c: "(ws + fightDuration ev > we' \<and> r = empty_result ev) \<or>
            (\<not> ws + fightDuration ev > we' \<and>
             (\<exists>all aw k tbs.
                schedule_areas src (fightDuration ev) (rotationTime ev) ws we' (minRestOf ev) (areas ev)
                  ([], [], 0) = Some (Inr (all, aw, k)) \<and>
                computeTimeBoxedStats num all ev = Inr tbs \<and>
                r = assemble ev ws we' all aw tbs))"
    by blast
  from we we' have "we' = we" by simp
  with c have cases: "r = empty_result ev \<or>
      (\<exists>all aw k tbs.
          schedule_areas src (fightDuration ev) (rotationTime ev) ws we (minRestOf ev) (areas ev)
            ([], [], 0) = Some (Inr (all, aw, k)) \<and> r = assemble ev ws we all aw tbs)"
    by blast
  from cases show ?thesis
  proof
    assume "r = empty_result ev"
    then show ?thesis by simp
  next
    assume "\<exists>all aw k tbs.
          schedule_areas src (fightDuration ev) (rotationTime ev) ws we (minRestOf ev) (areas ev)
            ([], [], 0) = Some (Inr (all, aw, k)) \<and> r = assemble ev ws we all aw tbs"
    then obtain all aw k tbs where
      sa: "schedule_areas src (fightDuration ev) (rotationTime ev) ws we (minRestOf ev) (areas ev)
            ([], [], 0) = Some (Inr (all, aw, k))" and r: "r = assemble ev ws we all aw tbs"
      by blast
    from schedule_areas_structure[OF sa] obtain ess where
      all: "all = concat ess" and
      l: "list_all2 (\<lambda>ar es. es = [] \<or>
                        (\<exists>k k'. scheduleTimeBoxedMatchesForArea src k ar (validGroups ar)
                           (fightDuration ev) (rotationTime ev) ws we (minRestOf ev) =
                                  Some (Inr (es, k')))) (areas ev) ess"
      by auto
    have "\<forall>e \<in> set es. Q e" if "es \<in> set ess" for es
    proof -
      from list_all2_right_elem[OF l that] obtain ar where "es = [] \<or>
                        (\<exists>k k'. scheduleTimeBoxedMatchesForArea src k ar (validGroups ar)
                           (fightDuration ev) (rotationTime ev) ws we (minRestOf ev) =
                                  Some (Inr (es, k')))"
        by blast
      then show ?thesis
      proof
        assume "es = []" then show ?thesis by simp
      next
        assume "\<exists>k k'. scheduleTimeBoxedMatchesForArea src k ar (validGroups ar)
                           (fightDuration ev) (rotationTime ev) ws we (minRestOf ev) =
                                  Some (Inr (es, k'))"
        then obtain k k' where "scheduleTimeBoxedMatchesForArea src k ar (validGroups ar)
                           (fightDuration ev) (rotationTime ev) ws we (minRestOf ev) =
                                  Some (Inr (es, k'))" by blast
        from area[OF ws this] show ?thesis .
      qed
    qed
    then show ?thesis using r all by auto
  qed
qed

text \<open>Reading a returned result through a projection.\<close>

lemma returned_with:
  assumes "map_option (map_sum id f) x = Some (Inr v)"
  obtains r where "x = Some (Inr r)" "f r = v"
proof -
  from assms obtain y where y: "x = Some y" "map_sum id f y = Inr v" by auto
  then obtain r where "y = Inr r" "f r = v" by (cases y) auto
  with y that show ?thesis by blast
qed

section \<open>C2: no entry ends after the window\<close>

lemma area_entries_in_window:
  assumes "scheduleTimeBoxedMatchesForArea src k ar gs fd rot ws we mr = Some (Inr (es, k'))"
  shows "\<forall>e \<in> set es. endTimeSeconds e \<le> we"
proof -
  from scheduleArea_Inr[OF assms] obtain t where
    run: "timeBoxedLoop src ar gs fd rot we mr
              \<lparr>currentTime = ws, loop_sequenceNumber = 0,
               groupStates = initial_group_states ws gs, loop_entries = [], idCounter = k\<rparr> =
              Some (Inr t)" and es: "es = loop_entries t"
    by blast
  have "\<forall>e \<in> set (loop_entries t). endTimeSeconds e \<le> we"
  proof (rule timeBoxedLoop_rule[OF run, where I = "\<lambda>s. \<forall>e \<in> set (loop_entries s). endTimeSeconds e \<le> we"])
    show "\<forall>e\<in>set (loop_entries \<lparr>currentTime = ws, loop_sequenceNumber = 0,
               groupStates = initial_group_states ws gs, loop_entries = [], idCounter = k\<rparr>).
            endTimeSeconds e \<le> we" by simp
  next
    fix s s'
    assume I: "\<forall>e \<in> set (loop_entries s). endTimeSeconds e \<le> we"
      and g: "currentTime s + fd \<le> we"
      and b: "loop_body src ar gs fd rot we mr s = Inr (Continue s')"
    from loop_body_Continue[OF b] show "\<forall>e \<in> set (loop_entries s'). endTimeSeconds e \<le> we"
    proof (elim disjE exE conjE)
      fix nxt assume "s' = s\<lparr>currentTime := nxt\<rparr>"
      with I show ?thesis by simp
    next
      fix gid g st c
      assume "commit_match src ar gid st c fd rot mr s = Inr s'"
      from commit_match_Inr[OF this] I g show ?thesis by (simp add: new_entry_def)
    qed
  next
    fix s s'
    assume I: "\<forall>e \<in> set (loop_entries s). endTimeSeconds e \<le> we"
      and b: "loop_body src ar gs fd rot we mr s = Inr (Break s')"
    from loop_body_Break[OF b] I show "\<forall>e \<in> set (loop_entries s'). endTimeSeconds e \<le> we" by simp
  qed
  with es show ?thesis by simp
qed

text \<open>
  C2. In every schedule that \<open>generateTimeBoxedSchedule\<close> returns, the end time of the
  window parses and every entry ends at or before it.
\<close>

theorem entries_end_within_window:
  assumes "generateTimeBoxedSchedule num src ev = Some (Inr r)"
  shows "\<exists>windowEnd. parseTime num (endTime ev) = Inr windowEnd \<and>
           (\<forall>e \<in> set (entries (generated_schedule r)). endTimeSeconds e \<le> windowEnd)"
proof -
  from generate_Inr[OF assms] obtain we where we: "parseTime num (endTime ev) = Inr we" by blast
  have "\<forall>e \<in> set (entries (generated_schedule r)). endTimeSeconds e \<le> we"
    by (rule generate_entries_all[OF assms we]) (rule area_entries_in_window)
  with we show ?thesis by blast
qed

text \<open>The small event: two matches, ending at 09:02 and 09:04:30, within the window ending at 09:05.\<close>

lemma small_event_run:
  "map_option (map_sum id (\<lambda>r. map (\<lambda>e. (athlete1Id e, athlete2Id e, startTimeSeconds e, endTimeSeconds e))
                                  (entries (generated_schedule r))))
     (generateTimeBoxedSchedule decimal_Number sample_ids small_event) =
   Some (Inr [(''x'', ''y'', 32400, 32520), (''x'', ''y'', 32550, 32670)])"
  by code_simp

lemma small_event_end: "parseTime decimal_Number (endTime small_event) = Inr 32700"
  by code_simp

theorem entries_end_within_window_witness:
  "\<exists>r. generateTimeBoxedSchedule decimal_Number sample_ids small_event = Some (Inr r) \<and>
       map endTimeSeconds (entries (generated_schedule r)) = [32520, 32670] \<and>
       list_all (\<lambda>e. endTimeSeconds e \<le> 32700) (entries (generated_schedule r))"
proof -
  from small_event_run obtain r where
    run: "generateTimeBoxedSchedule decimal_Number sample_ids small_event = Some (Inr r)" and
    es: "map (\<lambda>e. (athlete1Id e, athlete2Id e, startTimeSeconds e, endTimeSeconds e))
           (entries (generated_schedule r)) =
         [(''x'', ''y'', 32400, 32520), (''x'', ''y'', 32550, 32670)]"
    by (rule returned_with)
  from entries_end_within_window[OF run] small_event_end
  have "\<forall>e \<in> set (entries (generated_schedule r)). endTimeSeconds e \<le> 32700" by auto
  then have "list_all (\<lambda>e. endTimeSeconds e \<le> 32700) (entries (generated_schedule r))"
    by (simp add: list_all_iff)
  moreover from arg_cong[OF es, of "map (\<lambda>q. snd (snd (snd q)))"]
  have "map endTimeSeconds (entries (generated_schedule r)) = [32520, 32670]"
    by (simp add: o_def)
  ultimately show ?thesis using run by (intro exI[of _ r]) simp
qed

section \<open>The scheduling state after a pass\<close>

lemma map_of_fold_update:
  assumes "map_of (fold (\<lambda>g m. AList.update (kf g) (vf g) m) gs m0) key = Some val"
  shows "(\<exists>g \<in> set gs. key = kf g \<and> val = vf g) \<or> map_of m0 key = Some val"
  using assms
proof (induction gs arbitrary: m0)
  case Nil
  then show ?case by simp
next
  case (Cons g gs)
  from Cons.prems have "map_of (fold (\<lambda>g m. AList.update (kf g) (vf g) m) gs (AList.update (kf g) (vf g) m0)) key = Some val"
    by simp
  from Cons.IH[OF this] show ?case
    by (auto simp: update_conv' split: if_splits)
qed

lemma initial_state_of:
  assumes "state_of (initial_loop_state ws gs k) gid x = Some sx"
  shows "opponents sx = {} \<and> availableAt sx = ws"
proof -
  from assms obtain st where st: "map_of (initial_group_states ws gs) gid = Some st"
    and sx: "map_of (athleteStates st) x = Some sx"
    by (auto simp: state_of_def initial_loop_state_def split: option.splits)
  from map_of_fold_update[OF st[unfolded initial_group_states_def]] obtain g where
    "st = initial_group_state ws g" by auto
  with sx have "map_of (fold (\<lambda>a m. AList.update (athlete_id a) (initial_athlete_state ws a) m)
                   (athletes g) []) x = Some sx"
    by (simp add: initial_group_state_def)
  from map_of_fold_update[OF this] obtain a where "sx = initial_athlete_state ws a" by auto
  then show ?thesis by (simp add: initial_athlete_state_def)
qed

lemma states_after_lookup:
  assumes "map_of m id1 = Some s1" "map_of m id2 = Some s2"
  shows "map_of (states_after id1 id2 me mr m) x =
         (if x = id2 then Some (after_match id1 me mr (if id1 = id2 then after_match id2 me mr s1 else s2))
          else if x = id1 then Some (after_match id2 me mr s1)
          else map_of m x)"
  using assms by (auto simp: states_after_def Let_def update_conv')

text \<open>The athlete states after a committed match.\<close>

lemma state_of_commit:
  assumes c: "commit_match src ar gid st c fd rot mr s = Inr s'"
    and st: "map_of (groupStates s) gid = Some st"
    and s1: "map_of (athleteStates st) (athlete_id (athlete1 c)) = Some s1"
    and s2: "map_of (athleteStates st) (athlete_id (athlete2 c)) = Some s2"
  shows "state_of s' gid' x =
     (if gid' = gid then
        (if x = athlete_id (athlete2 c)
         then Some (after_match (athlete_id (athlete1 c)) (currentTime s + fd) mr
                 (if athlete_id (athlete1 c) = athlete_id (athlete2 c)
                  then after_match (athlete_id (athlete2 c)) (currentTime s + fd) mr s1 else s2))
         else if x = athlete_id (athlete1 c)
         then Some (after_match (athlete_id (athlete2 c)) (currentTime s + fd) mr s1)
         else state_of s gid x)
      else state_of s gid' x)"
proof -
  note s' = commit_match_Inr[OF c]
  show ?thesis
  proof (cases "gid' = gid")
    case False
    then show ?thesis by (subst s') (simp add: state_of_def update_conv')
  next
    case True
    have "state_of s' gid x = map_of (states_after (athlete_id (athlete1 c)) (athlete_id (athlete2 c))
                                         (currentTime s + fd) mr (athleteStates st)) x"
      by (subst s') (simp add: state_of_def update_conv')
    also note states_after_lookup[OF s1 s2]
    finally show ?thesis using True st by (simp add: state_of_def)
  qed
qed

lemma loop_entries_commit:
  assumes "commit_match src ar gid st c fd rot mr s = Inr s'"
  shows "loop_entries s' = loop_entries s @ [new_entry src ar gid c fd s]"
  by (subst commit_match_Inr[OF assms]) simp

text \<open>The pair that a pass commits: a pair of the group, both athletes available.\<close>

lemma chosen_pair:
  assumes f: "findBestPairForGroup g st now mr = Inr (Some c)"
  shows "\<exists>s1 s2. (athlete1 c, athlete2 c) \<in> set (all_pairs (athletes g)) \<and>
           map_of (athleteStates st) (athlete_id (athlete1 c)) = Some s1 \<and>
           map_of (athleteStates st) (athlete_id (athlete2 c)) = Some s2 \<and>
           availableAt s1 \<le> now \<and> availableAt s2 \<le> now \<and>
           isRematch c = (athlete_id (athlete2 c) \<in> opponents s1)"
proof -
  from findBestPair_Some[OF f] obtain cands where
    cs: "collect (candidate_of st (avgMatches g st) now) (all_pairs (athletes g)) = Inr cands"
    and c: "c \<in> set cands" by blast
  from collect_Inr[OF cs] c obtain p where p: "p \<in> set (all_pairs (athletes g))"
    "candidate_of st (avgMatches g st) now p = Inr (Some c)" by auto
  from candidate_of_Some[OF p(2)] p(1) show ?thesis by (cases p) auto
qed

lemma rematch_only_without_new:
  assumes f: "findBestPairForGroup g st now mr = Inr (Some c)"
    and re: "isRematch c"
    and p: "p \<in> set (all_pairs (athletes g))"
    and s1: "map_of (athleteStates st) (athlete_id (fst p)) = Some s1" "availableAt s1 \<le> now"
    and s2: "map_of (athleteStates st) (athlete_id (snd p)) = Some s2" "availableAt s2 \<le> now"
  shows "athlete_id (snd p) \<in> opponents s1"
proof -
  from findBestPair_Some[OF f] re obtain cands where
    cs: "collect (candidate_of st (avgMatches g st) now) (all_pairs (athletes g)) = Inr cands"
    and all: "\<forall>c' \<in> set cands. isRematch c'" by blast
  from s1 s2 obtain c' where c': "candidate_of st (avgMatches g st) now p = Inr (Some c')"
    "isRematch c' = (athlete_id (snd p) \<in> opponents s1)"
    by (auto simp: candidate_of_def Let_def)
  from collect_Inr[OF cs] p c'(1) have "c' \<in> set cands" by auto
  with all c'(2) show ?thesis by simp
qed

lemma all_pairs_subset: "(a, b) \<in> set (all_pairs xs) \<Longrightarrow> a \<in> set xs \<and> b \<in> set xs"
  by (induction xs) auto

section \<open>C4: a rematch only when no new pair is eligible\<close>

lemma fought_before_snoc:
  "fought_before (es @ [e]) gid x y =
     (fought_before es gid x y \<or>
      (entry_groupId e = gid \<and>
        ((athlete1Id e = x \<and> athlete2Id e = y) \<or> (athlete1Id e = y \<and> athlete2Id e = x))))"
  by (auto simp: fought_before_def)

lemma state_of_advance [simp]: "state_of (s\<lparr>currentTime := t\<rparr>) gid x = state_of s gid x"
  by (simp add: state_of_def)

lemma history_inv_init: "history_inv (initial_loop_state ws gs k)"
  unfolding history_inv_def
proof (intro allI impI)
  fix gid x sx assume "state_of (initial_loop_state ws gs k) gid x = Some sx"
  from initial_state_of[OF this]
  show "opponents sx = {y. fought_before (loop_entries (initial_loop_state ws gs k)) gid x y}"
    by (simp add: initial_loop_state_def fought_before_def)
qed

lemma history_inv_commit:
  assumes H: "history_inv s"
    and st: "map_of (groupStates s) gid = Some st"
    and f: "findBestPairForGroup g st (currentTime s) mr = Inr (Some c)"
    and c: "commit_match src ar gid st c fd rot mr s = Inr s'"
  shows "history_inv s'"
proof -
  let ?id1 = "athlete_id (athlete1 c)" and ?id2 = "athlete_id (athlete2 c)"
  from chosen_pair[OF f] obtain s1 s2 where
    s1: "map_of (athleteStates st) ?id1 = Some s1" and
    s2: "map_of (athleteStates st) ?id2 = Some s2" by blast
  note so = state_of_commit[OF c st s1 s2]
  note es = loop_entries_commit[OF c]
  have o1: "opponents s1 = {y. fought_before (loop_entries s) gid ?id1 y}"
    using H st s1 by (simp add: history_inv_def state_of_def)
  have o2: "opponents s2 = {y. fought_before (loop_entries s) gid ?id2 y}"
    using H st s2 by (simp add: history_inv_def state_of_def)
  show ?thesis
    unfolding history_inv_def
  proof (intro allI impI)
    fix gid' x sx assume a: "state_of s' gid' x = Some sx"
    show "opponents sx = {y. fought_before (loop_entries s') gid' x y}"
    proof (cases "gid' = gid")
      case False
      with a so have "state_of s gid' x = Some sx" by simp
      with H have "opponents sx = {y. fought_before (loop_entries s) gid' x y}"
        by (simp add: history_inv_def)
      with False show ?thesis by (simp add: es fought_before_snoc new_entry_def)
    next
      case True
      note g = True
      show ?thesis
      proof (cases "x = ?id2")
        case True
        with a so g have sx: "sx = after_match ?id1 (currentTime s + fd) mr
                 (if ?id1 = ?id2 then after_match ?id2 (currentTime s + fd) mr s1 else s2)"
          by simp
        from s1 s2 have same: "?id1 = ?id2 \<Longrightarrow> s1 = s2" by simp
        show ?thesis using sx True g o1 o2 same
          by (auto simp: es fought_before_snoc new_entry_def after_match_def)
      next
        case False
        note n2 = False
        show ?thesis
        proof (cases "x = ?id1")
          case True
          with a so g n2 have "sx = after_match ?id2 (currentTime s + fd) mr s1" by simp
          then show ?thesis using True g n2 o1
            by (auto simp: es fought_before_snoc new_entry_def after_match_def)
        next
          case False
          with a so g n2 have "state_of s gid x = Some sx" by simp
          with H have "opponents sx = {y. fought_before (loop_entries s) gid x y}"
            by (simp add: history_inv_def)
          with False n2 g show ?thesis
            by (auto simp: es fought_before_snoc new_entry_def)
        qed
      qed
    qed
  qed
qed

lemma history_inv_pass:
  assumes "history_inv s" "loop_body src ar gs fd rot we mr s = Inr (Continue s')"
  shows "history_inv s'"
  using loop_body_Continue[OF assms(2)]
proof (elim disjE exE conjE)
  fix nxt assume "s' = s\<lparr>currentTime := nxt\<rparr>"
  with assms(1) show ?thesis by (simp add: history_inv_def)
next
  fix gid g st c
  assume "map_of (groupStates s) gid = Some st"
    "findBestPairForGroup g st (currentTime s) mr = Inr (Some c)"
    "commit_match src ar gid st c fd rot mr s = Inr s'"
  with assms(1) show ?thesis by (rule history_inv_commit)
qed

lemma reachable_history:
  "reachable src ar gs fd rot ws we mr k s \<Longrightarrow> history_inv s"
  by (induction rule: reachable.induct) (auto intro: history_inv_init history_inv_pass)

text \<open>
  C4. In every state the loop of an area passes through, a pass that commits an entry
  commits a pair of the chosen group (the first group with the id of the entry) whose two
  athletes are available at the clock; and if the two have fought each other before in
  that group, so has every pair of the group whose two athletes are available at that
  clock: a rematch is committed only when no new-opponent pair is eligible.
\<close>

theorem rematch_only_when_no_new_pair:
  assumes r: "reachable src ar gs fd rot ws we mr k s"
    and b: "loop_body src ar gs fd rot we mr s = Inr (Continue s')"
    and e: "loop_entries s' = loop_entries s @ [e]"
  shows "\<exists>g a b. find (\<lambda>g. group_id g = entry_groupId e) gs = Some g \<and>
           (a, b) \<in> set (all_pairs (athletes g)) \<and>
           athlete1Id e = athlete_id a \<and> athlete2Id e = athlete_id b \<and>
           available s (entry_groupId e) a \<and> available s (entry_groupId e) b \<and>
           (fought_before (loop_entries s) (entry_groupId e) (athlete_id a) (athlete_id b) \<longrightarrow>
              (\<forall>p \<in> set (all_pairs (athletes g)).
                  available s (entry_groupId e) (fst p) \<and> available s (entry_groupId e) (snd p) \<longrightarrow>
                  fought_before (loop_entries s) (entry_groupId e)
                    (athlete_id (fst p)) (athlete_id (snd p))))"
  using loop_body_Continue[OF b]
proof (elim disjE exE conjE)
  fix nxt assume "s' = s\<lparr>currentTime := nxt\<rparr>"
  with e show ?thesis by simp
next
  fix gid g st c
  assume fnd: "find (\<lambda>g. group_id g = gid) gs = Some g"
    and st: "map_of (groupStates s) gid = Some st"
    and f: "findBestPairForGroup g st (currentTime s) mr = Inr (Some c)"
    and c: "commit_match src ar gid st c fd rot mr s = Inr s'"
  from loop_entries_commit[OF c] e have e': "e = new_entry src ar gid c fd s" by simp
  then have eg: "entry_groupId e = gid" and e1: "athlete1Id e = athlete_id (athlete1 c)"
    and e2: "athlete2Id e = athlete_id (athlete2 c)" by (simp_all add: new_entry_def)
  from chosen_pair[OF f] obtain s1 s2 where
    p: "(athlete1 c, athlete2 c) \<in> set (all_pairs (athletes g))" and
    s1: "map_of (athleteStates st) (athlete_id (athlete1 c)) = Some s1" "availableAt s1 \<le> currentTime s" and
    s2: "map_of (athleteStates st) (athlete_id (athlete2 c)) = Some s2" "availableAt s2 \<le> currentTime s" and
    re: "isRematch c = (athlete_id (athlete2 c) \<in> opponents s1)" by blast
  have H: "history_inv s" by (rule reachable_history[OF r])
  have opp: "\<And>x sx. map_of (athleteStates st) x = Some sx \<Longrightarrow>
               opponents sx = {y. fought_before (loop_entries s) gid x y}"
    using H st by (simp add: history_inv_def state_of_def)
  have av1: "available s gid (athlete1 c)" and av2: "available s gid (athlete2 c)"
    using st s1 s2 by (simp_all add: available_def state_of_def)
  have only: "\<forall>p \<in> set (all_pairs (athletes g)).
                  available s gid (fst p) \<and> available s gid (snd p) \<longrightarrow>
                  fought_before (loop_entries s) gid (athlete_id (fst p)) (athlete_id (snd p))"
    if fb: "fought_before (loop_entries s) gid (athlete_id (athlete1 c)) (athlete_id (athlete2 c))"
  proof (intro ballI impI)
    fix q assume q: "q \<in> set (all_pairs (athletes g))"
      and av: "available s gid (fst q) \<and> available s gid (snd q)"
    from fb re opp[OF s1(1)] have rem: "isRematch c" by simp
    from av st obtain q1 q2 where
      q1: "map_of (athleteStates st) (athlete_id (fst q)) = Some q1" "availableAt q1 \<le> currentTime s" and
      q2: "map_of (athleteStates st) (athlete_id (snd q)) = Some q2" "availableAt q2 \<le> currentTime s"
      by (auto simp: available_def state_of_def split: option.splits)
    from rematch_only_without_new[OF f rem q q1 q2] opp[OF q1(1)]
    show "fought_before (loop_entries s) gid (athlete_id (fst q)) (athlete_id (snd q))" by simp
  qed
  show ?thesis
    using fnd p av1 av2 only unfolding eg e1 e2 by blast
qed

text \<open>
  The passes of the example are passes of the loop from its first state, so their states
  are reachable; a pass that changes the number of entries appends one.
\<close>

lemma passes_Suc_Some:
  assumes "passes src ar gs fd rot we mr (Suc n) s = Some t'"
  shows "\<exists>t. passes src ar gs fd rot we mr n s = Some t \<and> currentTime t + fd \<le> we \<and>
             loop_body src ar gs fd rot we mr t = Inr (Continue t')"
  using assms by (auto split: option.splits if_splits sum.splits flow.splits)

lemma passes_reachable:
  "passes src ar gs fd rot we mr n (initial_loop_state ws gs k) = Some t \<Longrightarrow>
   reachable src ar gs fd rot ws we mr k t"
proof (induction n arbitrary: t)
  case 0
  then show ?case by (auto intro: reachable.start)
next
  case (Suc n)
  from passes_Suc_Some[OF Suc.prems] obtain u where
    u: "passes src ar gs fd rot we mr n (initial_loop_state ws gs k) = Some u"
    "currentTime u + fd \<le> we" "loop_body src ar gs fd rot we mr u = Inr (Continue t)" by blast
  from reachable.pass[OF Suc.IH[OF u(1)] u(2,3)] show ?case .
qed

lemma pass_appends:
  assumes "loop_body src ar gs fd rot we mr s = Inr (Continue s')"
    and "length (loop_entries s') \<noteq> length (loop_entries s)"
  shows "\<exists>e. loop_entries s' = loop_entries s @ [e]"
  using loop_body_Continue[OF assms(1)] assms(2)
  by (auto dest: loop_entries_commit)

lemma fought_before_summary:
  "fought_before es gid x y =
     ((gid, x, y) \<in> set (map entry_summary es) \<or> (gid, y, x) \<in> set (map entry_summary es))"
  by (auto simp: fought_before_def entry_summary_def image_iff)

lemma trio_first:
  "map_option (\<lambda>t. (map entry_summary (loop_entries t),
                     list_all (available t ''g1'') (athletes (hd trio)))) (trio_passes 1) =
   Some ([(''g1'', ''x'', ''y'')], True)"
  by code_simp

lemma trio_second:
  "map_option (\<lambda>t. length (loop_entries t)) (trio_passes 2) = Some 2"
  by code_simp

lemma trio_third:
  "map_option (\<lambda>t. (map entry_summary (loop_entries t),
                     list_all (available t ''g1'') (athletes (hd trio)))) (trio_passes 3) =
   Some ([(''g1'', ''x'', ''y''), (''g1'', ''x'', ''z''), (''g1'', ''y'', ''z'')], True)"
  by code_simp

lemma trio_fourth:
  "map_option (\<lambda>t. map entry_summary (loop_entries t)) (trio_passes 4) =
   Some [(''g1'', ''x'', ''y''), (''g1'', ''x'', ''z''), (''g1'', ''y'', ''z''), (''g1'', ''x'', ''y'')]"
  by code_simp

lemma trio_pairs:
  "all_pairs (athletes (hd trio)) =
     [(\<lparr>athlete_id = ''x'', athlete_name = ''x'', athlete_groupId = ''g1''\<rparr>,
       \<lparr>athlete_id = ''y'', athlete_name = ''y'', athlete_groupId = ''g1''\<rparr>),
      (\<lparr>athlete_id = ''x'', athlete_name = ''x'', athlete_groupId = ''g1''\<rparr>,
       \<lparr>athlete_id = ''z'', athlete_name = ''z'', athlete_groupId = ''g1''\<rparr>),
      (\<lparr>athlete_id = ''y'', athlete_name = ''y'', athlete_groupId = ''g1''\<rparr>,
       \<lparr>athlete_id = ''z'', athlete_name = ''z'', athlete_groupId = ''g1''\<rparr>)]"
  by code_simp

text \<open>
  The group [x, y, z] with no rest. After the first pass (x against y) all three are
  available; the second pass commits a pair that has not fought before, although the
  rematch of x and y is eligible. After three passes every pair has fought; the fourth
  pass commits a rematch, and every pair available then has fought before.
\<close>

theorem rematch_only_when_no_new_pair_witness:
  "(\<exists>s1 s2 e. trio_passes 1 = Some s1 \<and> trio_passes 2 = Some s2 \<and>
       map entry_summary (loop_entries s1) = [(''g1'', ''x'', ''y'')] \<and>
       loop_entries s2 = loop_entries s1 @ [e] \<and>
       list_all (available s1 ''g1'') (athletes (hd trio)) \<and>
       \<not> fought_before (loop_entries s1) ''g1'' (athlete1Id e) (athlete2Id e)) \<and>
   (\<exists>s3 s4 e. trio_passes 3 = Some s3 \<and> trio_passes 4 = Some s4 \<and>
       loop_entries s4 = loop_entries s3 @ [e] \<and>
       fought_before (loop_entries s3) ''g1'' (athlete1Id e) (athlete2Id e) \<and>
       list_all (\<lambda>p. fought_before (loop_entries s3) ''g1'' (athlete_id (fst p)) (athlete_id (snd p)))
         (all_pairs (athletes (hd trio))))"
proof -
  let ?A = "area_of ''a1'' trio"
  have gid: "\<And>g i. find (\<lambda>g. group_id g = i) trio = Some g \<Longrightarrow> i = ''g1'' \<and> g = hd trio"
    by (auto simp: trio_def group_of_def split: if_splits)
  have first: "\<exists>s1 s2 e. trio_passes 1 = Some s1 \<and> trio_passes 2 = Some s2 \<and>
       map entry_summary (loop_entries s1) = [(''g1'', ''x'', ''y'')] \<and>
       loop_entries s2 = loop_entries s1 @ [e] \<and>
       list_all (available s1 ''g1'') (athletes (hd trio)) \<and>
       \<not> fought_before (loop_entries s1) ''g1'' (athlete1Id e) (athlete2Id e)"
  proof -
    from trio_second obtain s2 where s2: "trio_passes 2 = Some s2" "length (loop_entries s2) = 2"
      by auto
    from s2(1) have "passes sample_ids ?A trio 120 30 33300 0 (Suc 1) (initial_loop_state 32400 trio 0) = Some s2"
      by (simp add: trio_passes_def eval_nat_numeral)
    from passes_Suc_Some[OF this] obtain s1 where
      s1: "passes sample_ids ?A trio 120 30 33300 0 1 (initial_loop_state 32400 trio 0) = Some s1"
      and b: "loop_body sample_ids ?A trio 120 30 33300 0 s1 = Inr (Continue s2)" by blast
    from s1 have t1: "trio_passes 1 = Some s1" by (simp add: trio_passes_def)
    with trio_first have es: "map entry_summary (loop_entries s1) = [(''g1'', ''x'', ''y'')]"
      and av: "list_all (available s1 ''g1'') (athletes (hd trio))" by simp_all
    from arg_cong[OF es, of length] s2(2) have "length (loop_entries s2) \<noteq> length (loop_entries s1)"
      by simp
    from pass_appends[OF b this] obtain e where e: "loop_entries s2 = loop_entries s1 @ [e]" ..
    have r: "reachable sample_ids ?A trio 120 30 32400 33300 0 0 s1"
      by (rule passes_reachable[OF s1])
    from rematch_only_when_no_new_pair[OF r b e] obtain g and a :: athlete and b :: athlete where
      g: "find (\<lambda>g. group_id g = entry_groupId e) trio = Some g" and
      ids: "athlete1Id e = athlete_id a" "athlete2Id e = athlete_id b" and
      imp: "fought_before (loop_entries s1) (entry_groupId e) (athlete_id a) (athlete_id b) \<longrightarrow>
              (\<forall>p \<in> set (all_pairs (athletes g)).
                  available s1 (entry_groupId e) (fst p) \<and> available s1 (entry_groupId e) (snd p) \<longrightarrow>
                  fought_before (loop_entries s1) (entry_groupId e)
                    (athlete_id (fst p)) (athlete_id (snd p)))"
      by blast
    from gid[OF g] have eg: "entry_groupId e = ''g1''" and gh: "g = hd trio" by simp_all
    have "\<not> fought_before (loop_entries s1) ''g1'' (athlete1Id e) (athlete2Id e)"
    proof
      assume "fought_before (loop_entries s1) ''g1'' (athlete1Id e) (athlete2Id e)"
      with imp have all: "\<forall>p \<in> set (all_pairs (athletes (hd trio))).
                  available s1 ''g1'' (fst p) \<and> available s1 ''g1'' (snd p) \<longrightarrow>
                  fought_before (loop_entries s1) ''g1'' (athlete_id (fst p)) (athlete_id (snd p))"
        by (simp add: eg gh ids)
      have "\<forall>p \<in> set (all_pairs (athletes (hd trio))).
              available s1 ''g1'' (fst p) \<and> available s1 ''g1'' (snd p)"
        using av all_pairs_subset[of _ _ "athletes (hd trio)"] by (auto simp: list_all_iff)
      with all have "\<forall>p \<in> set (all_pairs (athletes (hd trio))).
                  fought_before (loop_entries s1) ''g1'' (athlete_id (fst p)) (athlete_id (snd p))"
        by blast
      then have "fought_before (loop_entries s1) ''g1'' ''x'' ''z''"
        by (simp add: trio_pairs)
      then show False by (simp add: fought_before_summary es)
    qed
    with t1 s2(1) es e av show ?thesis
      by (intro exI[of _ s1] exI[of _ s2] exI[of _ e]) simp
  qed
  have second: "\<exists>s3 s4 e. trio_passes 3 = Some s3 \<and> trio_passes 4 = Some s4 \<and>
       loop_entries s4 = loop_entries s3 @ [e] \<and>
       fought_before (loop_entries s3) ''g1'' (athlete1Id e) (athlete2Id e) \<and>
       list_all (\<lambda>p. fought_before (loop_entries s3) ''g1'' (athlete_id (fst p)) (athlete_id (snd p)))
         (all_pairs (athletes (hd trio)))"
  proof -
    from trio_fourth obtain s4 where s4: "trio_passes 4 = Some s4"
      "map entry_summary (loop_entries s4) =
         [(''g1'', ''x'', ''y''), (''g1'', ''x'', ''z''), (''g1'', ''y'', ''z''), (''g1'', ''x'', ''y'')]"
      by auto
    from s4(1) have "passes sample_ids ?A trio 120 30 33300 0 (Suc 3) (initial_loop_state 32400 trio 0) = Some s4"
      by (simp add: trio_passes_def eval_nat_numeral)
    from passes_Suc_Some[OF this] obtain s3 where
      s3: "passes sample_ids ?A trio 120 30 33300 0 3 (initial_loop_state 32400 trio 0) = Some s3"
      and b: "loop_body sample_ids ?A trio 120 30 33300 0 s3 = Inr (Continue s4)" by blast
    from s3 have t3: "trio_passes 3 = Some s3" by (simp add: trio_passes_def)
    with trio_third have es: "map entry_summary (loop_entries s3) =
        [(''g1'', ''x'', ''y''), (''g1'', ''x'', ''z''), (''g1'', ''y'', ''z'')]"
      and av: "list_all (available s3 ''g1'') (athletes (hd trio))" by simp_all
    from arg_cong[OF es, of length] arg_cong[OF s4(2), of length]
    have "length (loop_entries s4) \<noteq> length (loop_entries s3)" by simp
    from pass_appends[OF b this] obtain e where e: "loop_entries s4 = loop_entries s3 @ [e]" ..
    from s4(2) es have "entry_summary e = (''g1'', ''x'', ''y'')" by (simp add: e)
    then have ef: "entry_groupId e = ''g1''" "athlete1Id e = ''x''" "athlete2Id e = ''y''"
      by (simp_all add: entry_summary_def)
    have fb: "fought_before (loop_entries s3) ''g1'' (athlete1Id e) (athlete2Id e)"
      by (simp add: fought_before_summary es ef)
    have r: "reachable sample_ids ?A trio 120 30 32400 33300 0 0 s3"
      by (rule passes_reachable[OF s3])
    from rematch_only_when_no_new_pair[OF r b e] obtain g and a :: athlete and b :: athlete where
      g: "find (\<lambda>g. group_id g = entry_groupId e) trio = Some g" and
      ids: "athlete1Id e = athlete_id a" "athlete2Id e = athlete_id b" and
      imp: "fought_before (loop_entries s3) (entry_groupId e) (athlete_id a) (athlete_id b) \<longrightarrow>
              (\<forall>p \<in> set (all_pairs (athletes g)).
                  available s3 (entry_groupId e) (fst p) \<and> available s3 (entry_groupId e) (snd p) \<longrightarrow>
                  fought_before (loop_entries s3) (entry_groupId e)
                    (athlete_id (fst p)) (athlete_id (snd p)))"
      by blast
    from gid[OF g] have gh: "g = hd trio" by simp
    from imp fb have all: "\<forall>p \<in> set (all_pairs (athletes (hd trio))).
                  available s3 ''g1'' (fst p) \<and> available s3 ''g1'' (snd p) \<longrightarrow>
                  fought_before (loop_entries s3) ''g1'' (athlete_id (fst p)) (athlete_id (snd p))"
      by (simp add: ef(1) gh ids[symmetric])
    have "\<forall>p \<in> set (all_pairs (athletes (hd trio))).
            available s3 ''g1'' (fst p) \<and> available s3 ''g1'' (snd p)"
      using av all_pairs_subset[of _ _ "athletes (hd trio)"] by (auto simp: list_all_iff)
    with all have "list_all (\<lambda>p. fought_before (loop_entries s3) ''g1'' (athlete_id (fst p)) (athlete_id (snd p)))
         (all_pairs (athletes (hd trio)))"
      by (simp add: list_all_iff)
    with t3 s4(1) e fb show ?thesis
      by (intro exI[of _ s3] exI[of _ s4] exI[of _ e]) simp
  qed
  from first second show ?thesis by blast
qed
section \<open>C3: the minimum rest between the matches of an athlete\<close>















subsection \<open>The rest between the matches of an athlete over the whole event\<close>














section \<open>C6: groups with fewer than two athletes\<close>

text \<open>
  The loop of an area uses the area only through its id, so the entries of an area do not
  depend on the groups the area lists besides the ones it is called with; and removing
  the groups with fewer than two athletes from an event leaves the entries as they are.
\<close>

lemma commit_match_area_id:
  "area_id ar' = area_id ar \<Longrightarrow>
   commit_match src ar' gid st c fd rot mr s = commit_match src ar gid st c fd rot mr s"
  by (simp add: commit_match_def)

lemma loop_body_area_id:
  assumes "area_id ar' = area_id ar"
  shows "loop_body src ar' gs fd rot we mr s = loop_body src ar gs fd rot we mr s"
  unfolding loop_body_def commit_match_area_id[OF assms] ..

lemma timeBoxedLoop_area_id_Some:
  assumes run: "timeBoxedLoop src ar gs fd rot we mr s = Some y"
    and ids: "area_id ar' = area_id ar"
  shows "timeBoxedLoop src ar' gs fd rot we mr s = Some y"
proof -
  let ?P = "\<lambda>src0 ar0 gs0 fd0 rot0 we0 mr0 (s::loop_state) (y::error + loop_state).
          area_id ar' = area_id ar0 \<longrightarrow> timeBoxedLoop src0 ar' gs0 fd0 rot0 we0 mr0 s = Some y"
  have "?P src ar gs fd rot we mr s y"
  proof (rule timeBoxedLoop.raw_induct[where P = ?P, OF _ run])
    fix loop src0 ar0 gs0 fd0 rot0 we0 mr0 s y
    assume IH: "\<And>src0 ar0 gs0 fd0 rot0 we0 mr0 s y.
                  loop src0 ar0 gs0 fd0 rot0 we0 mr0 s = Some y \<Longrightarrow> ?P src0 ar0 gs0 fd0 rot0 we0 mr0 s y"
      and body: "(if currentTime s + fd0 \<le> we0
           then case loop_body src0 ar0 gs0 fd0 rot0 we0 mr0 s of
                  Inl e \<Rightarrow> Some (Inl e)
                | Inr (Break s') \<Rightarrow> Some (Inr s')
                | Inr (Continue s') \<Rightarrow> loop src0 ar0 gs0 fd0 rot0 we0 mr0 s'
           else Some (Inr s)) = Some y"
    show "?P src0 ar0 gs0 fd0 rot0 we0 mr0 s y"
    proof
      assume i: "area_id ar' = area_id ar0"
      note lb = loop_body_area_id[OF i, of src0 gs0 fd0 rot0 we0 mr0 s]
      show "timeBoxedLoop src0 ar' gs0 fd0 rot0 we0 mr0 s = Some y"
      proof (cases "currentTime s + fd0 \<le> we0")
        case False
        with body show ?thesis by (subst timeBoxedLoop.simps) simp
      next
        case True
        show ?thesis
        proof (cases "loop_body src0 ar0 gs0 fd0 rot0 we0 mr0 s")
          case (Inl e)
          with body True lb show ?thesis by (subst timeBoxedLoop.simps) simp
        next
          case (Inr fl)
          show ?thesis
          proof (cases fl)
            case (Break s')
            with Inr body True lb show ?thesis by (subst timeBoxedLoop.simps) simp
          next
            case (Continue s')
            with Inr body True have "loop src0 ar0 gs0 fd0 rot0 we0 mr0 s' = Some y" by simp
            from IH[OF this] i have "timeBoxedLoop src0 ar' gs0 fd0 rot0 we0 mr0 s' = Some y" by simp
            with Inr Continue True lb show ?thesis by (subst timeBoxedLoop.simps) simp
          qed
        qed
      qed
    qed
  qed
  with ids show ?thesis by simp
qed

lemma timeBoxedLoop_area_id:
  assumes "area_id ar' = area_id ar"
  shows "timeBoxedLoop src ar' gs fd rot we mr s = timeBoxedLoop src ar gs fd rot we mr s"
proof (cases "timeBoxedLoop src ar gs fd rot we mr s")
  case (Some y)
  from timeBoxedLoop_area_id_Some[OF this assms] Some show ?thesis by simp
next
  case None
  show ?thesis
  proof (cases "timeBoxedLoop src ar' gs fd rot we mr s")
    case (Some y)
    from timeBoxedLoop_area_id_Some[OF this assms[symmetric]] None show ?thesis by simp
  next
    case None': None
    with None show ?thesis by simp
  qed
qed

lemma scheduleArea_area_id:
  assumes "area_id ar' = area_id ar"
  shows "scheduleTimeBoxedMatchesForArea src k ar' gs fd rot ws we mr =
         scheduleTimeBoxedMatchesForArea src k ar gs fd rot ws we mr"
  unfolding scheduleTimeBoxedMatchesForArea_def timeBoxedLoop_area_id[OF assms] ..

lemma validGroups_idem [simp]: "validGroups (ar\<lparr>groups := validGroups ar\<rparr>) = validGroups ar"
  by (simp add: validGroups_def)

lemma schedule_areas_without_small:
  "fst acc' = fst acc \<Longrightarrow> snd (snd acc') = snd (snd acc) \<Longrightarrow>
   map_option (map_sum id (\<lambda>res. (fst res, snd (snd res))))
     (schedule_areas src fd rot ws we mr (map (\<lambda>ar. ar\<lparr>groups := validGroups ar\<rparr>) as) acc') =
   map_option (map_sum id (\<lambda>res. (fst res, snd (snd res))))
     (schedule_areas src fd rot ws we mr as acc)"
proof (induction as arbitrary: acc acc')
  case Nil
  then show ?case by simp
next
  case (Cons ar as)
  let ?ar = "ar\<lparr>groups := validGroups ar\<rparr>"
  show ?case
  proof (cases "length (validGroups ar) = 0")
    case True
    then have "validGroups ar = []" by simp
    then show ?thesis using Cons.IH[of acc' acc] Cons.prems
      Cons.IH[of acc' "(fst acc, fst (snd acc) @ [no_valid_group_warning ar], snd (snd acc))"]
      by simp
  next
    case False
    then have g: "length (groups ar) \<noteq> 0" by (auto simp: validGroups_def)
    have sa: "scheduleTimeBoxedMatchesForArea src (snd (snd acc')) ?ar (validGroups ar) fd rot ws we mr =
          scheduleTimeBoxedMatchesForArea src (snd (snd acc)) ar (validGroups ar) fd rot ws we mr"
    proof -
      have "area_id ?ar = area_id ar" by simp
      from scheduleArea_area_id[OF this, of src "snd (snd acc)" "validGroups ar" fd rot ws we mr]
        Cons.prems(2)
      show ?thesis by simp
    qed
    show ?thesis
    proof (cases "scheduleTimeBoxedMatchesForArea src (snd (snd acc)) ar (validGroups ar) fd rot ws we mr")
      case None
      with False g sa show ?thesis by simp
    next
      case (Some y)
      show ?thesis
      proof (cases y)
        case (Inl e)
        with Some False g sa show ?thesis by simp
      next
        case (Inr p)
        obtain es k where p: "p = (es, k)" by (cases p)
        from Cons.IH[of "(fst acc' @ es, fst (snd acc'), k)" "(fst acc @ es, fst (snd acc), k)"]
          Cons.prems Some Inr p False g sa
        show ?thesis by simp
      qed
    qed
  qed
qed

lemma computeTimeBoxedStats_Inr:
  "parseTime num (startTime ev) = Inr ws \<Longrightarrow> parseTime num (endTime ev) = Inr we \<Longrightarrow>
   \<exists>tbs. computeTimeBoxedStats num es ev = Inr tbs"
  by (simp add: computeTimeBoxedStats_def Let_def)

lemma entries_without_small_groups:
  "map_option (map_sum id (\<lambda>r. entries (generated_schedule r)))
     (generateTimeBoxedSchedule num src (without_small_groups ev)) =
   map_option (map_sum id (\<lambda>r. entries (generated_schedule r)))
     (generateTimeBoxedSchedule num src ev)"
proof (cases "parseTime num (startTime ev)")
  case (Inl e)
  then show ?thesis by (simp add: generateTimeBoxedSchedule_def without_small_groups_def)
next
  case ws: (Inr ws)
  show ?thesis
  proof (cases "parseTime num (endTime ev)")
    case (Inl e)
    with ws show ?thesis by (simp add: generateTimeBoxedSchedule_def without_small_groups_def)
  next
    case we: (Inr we)
    let ?ev = "without_small_groups ev"
    have same: "startTime ?ev = startTime ev" "endTime ?ev = endTime ev"
      "fightDuration ?ev = fightDuration ev" "rotationTime ?ev = rotationTime ev"
      "minRestOf ?ev = minRestOf ev"
      "areas ?ev = map (\<lambda>ar. ar\<lparr>groups := validGroups ar\<rparr>) (areas ev)"
      by (simp_all add: without_small_groups_def minRestOf_def)
    show ?thesis
    proof (cases "ws + fightDuration ev > we")
      case True
      with ws we same show ?thesis by (simp add: generateTimeBoxedSchedule_def)
    next
      case False
      let ?A = "schedule_areas src (fightDuration ev) (rotationTime ev) ws we (minRestOf ev)
                  (map (\<lambda>ar. ar\<lparr>groups := validGroups ar\<rparr>) (areas ev)) ([], [], 0)"
      let ?B = "schedule_areas src (fightDuration ev) (rotationTime ev) ws we (minRestOf ev)
                  (areas ev) ([], [], 0)"
      have eq: "map_option (map_sum id (\<lambda>res. (fst res, snd (snd res)))) ?A =
                map_option (map_sum id (\<lambda>res. (fst res, snd (snd res)))) ?B"
        by (rule schedule_areas_without_small) simp_all
      have st: "\<And>es. \<exists>tbs. computeTimeBoxedStats num es ev = Inr tbs"
               "\<And>es. \<exists>tbs. computeTimeBoxedStats num es ?ev = Inr tbs"
        using ws we computeTimeBoxedStats_Inr[of num ev ws we]
          computeTimeBoxedStats_Inr[of num ?ev ws we] same by simp_all
      have L: "map_option (map_sum id (\<lambda>r. entries (generated_schedule r)))
                 (generateTimeBoxedSchedule num src ?ev) =
               map_option (map_sum id fst) ?A"
      proof (cases ?A)
        case None
        with ws we False same show ?thesis by (simp add: generateTimeBoxedSchedule_def)
      next
        case (Some y)
        show ?thesis
        proof (cases y)
          case (Inl e)
          with Some ws we False same show ?thesis by (simp add: generateTimeBoxedSchedule_def)
        next
          case (Inr res)
          obtain all aw k where res: "res = (all, aw, k)" by (cases res)
          from st(2)[of all] obtain tbs where "computeTimeBoxedStats num all ?ev = Inr tbs" ..
          with Some Inr res ws we False same show ?thesis
            by (simp add: generateTimeBoxedSchedule_def)
        qed
      qed
      have R: "map_option (map_sum id (\<lambda>r. entries (generated_schedule r)))
                 (generateTimeBoxedSchedule num src ev) =
               map_option (map_sum id fst) ?B"
      proof (cases ?B)
        case None
        with ws we False show ?thesis by (simp add: generateTimeBoxedSchedule_def)
      next
        case (Some y)
        show ?thesis
        proof (cases y)
          case (Inl e)
          with Some ws we False show ?thesis by (simp add: generateTimeBoxedSchedule_def)
        next
          case (Inr res)
          obtain all aw k where res: "res = (all, aw, k)" by (cases res)
          from st(1)[of all] obtain tbs where "computeTimeBoxedStats num all ev = Inr tbs" ..
          with Some Inr res ws we False show ?thesis
            by (simp add: generateTimeBoxedSchedule_def)
        qed
      qed
      have "map_option (map_sum id fst) ?A = map_option (map_sum id fst) ?B"
        using arg_cong[OF eq, of "map_option (map_sum id fst)"]
        by (simp add: option.map_comp sum.map_comp o_def id_def)
      with L R show ?thesis by simp
    qed
  qed
qed

text \<open>
  Every entry of an area is an entry of one of the groups the area was scheduled with.
  The warnings of a result: those of the areas, then rest violations and warnings about
  the event as a whole.
\<close>

lemma area_entries_from_groups:
  assumes "scheduleTimeBoxedMatchesForArea src k ar gs fd rot ws we mr = Some (Inr (es, k'))"
  shows "\<forall>e \<in> set es. \<exists>g \<in> set gs. group_id g = entry_groupId e \<and>
            athlete1Id e \<in> group_athlete_ids g \<and> athlete2Id e \<in> group_athlete_ids g"
proof -
  let ?I = "\<lambda>s. \<forall>e \<in> set (loop_entries s). \<exists>g \<in> set gs. group_id g = entry_groupId e \<and>
            athlete1Id e \<in> group_athlete_ids g \<and> athlete2Id e \<in> group_athlete_ids g"
  from scheduleArea_Inr[OF assms] obtain t where
    run: "timeBoxedLoop src ar gs fd rot we mr
              \<lparr>currentTime = ws, loop_sequenceNumber = 0,
               groupStates = initial_group_states ws gs, loop_entries = [], idCounter = k\<rparr> =
              Some (Inr t)" and es: "es = loop_entries t"
    by blast
  have "?I t"
  proof (rule timeBoxedLoop_rule[OF run, where I = ?I])
    show "?I \<lparr>currentTime = ws, loop_sequenceNumber = 0,
               groupStates = initial_group_states ws gs, loop_entries = [], idCounter = k\<rparr>"
      by simp
  next
    fix s s'
    assume I: "?I s" and b: "loop_body src ar gs fd rot we mr s = Inr (Continue s')"
    from loop_body_Continue[OF b] show "?I s'"
    proof (elim disjE exE conjE)
      fix nxt assume "s' = s\<lparr>currentTime := nxt\<rparr>"
      with I show ?thesis by simp
    next
      fix gid g st c
      assume fnd: "find (\<lambda>g. group_id g = gid) gs = Some g"
        and f: "findBestPairForGroup g st (currentTime s) mr = Inr (Some c)"
        and c: "commit_match src ar gid st c fd rot mr s = Inr s'"
      from fnd have g: "g \<in> set gs" "group_id g = gid"
        by (auto simp: find_Some_iff)
      from chosen_pair[OF f] have "(athlete1 c, athlete2 c) \<in> set (all_pairs (athletes g))" by blast
      from all_pairs_subset[OF this]
      have m: "athlete_id (athlete1 c) \<in> group_athlete_ids g" "athlete_id (athlete2 c) \<in> group_athlete_ids g"
        by (simp_all add: group_athlete_ids_def)
      have "\<exists>g \<in> set gs. group_id g = entry_groupId (new_entry src ar gid c fd s) \<and>
            athlete1Id (new_entry src ar gid c fd s) \<in> group_athlete_ids g \<and>
            athlete2Id (new_entry src ar gid c fd s) \<in> group_athlete_ids g"
        using g m by (intro bexI[of _ g]) (simp_all add: new_entry_def)
      with loop_entries_commit[OF c] I show ?thesis by simp
    qed
  next
    fix s s'
    assume I: "?I s" and b: "loop_body src ar gs fd rot we mr s = Inr (Break s')"
    from loop_body_Break[OF b] I show "?I s'" by simp
  qed
  with es show ?thesis by simp
qed

lemma rest_warnings_type:
  "\<forall>w \<in> set (validateMinRestBetweenFights es roster mr). warning_type w = REST_VIOLATION"
  by (auto simp: validateMinRestBetweenFights_def rest_warning_def)

lemma assemble_warnings:
  "\<exists>rest. generated_warnings (assemble ev ws we all aw tbs) = aw @ rest \<and>
          (\<forall>w \<in> set rest. warning_type w = REST_VIOLATION \<or> affectedItems w = [event_id ev])"
proof -
  let ?rest = "validateMinRestBetweenFights all (all_athletes ev) (minRestOf ev)
                 @ (if matchCountGap tbs > 2 then [equity_warning ev tbs] else [])
                 @ (if overallCompletenessPercentage tbs < 50 then [completeness_warning ev tbs] else [])"
  have "generated_warnings (assemble ev ws we all aw tbs) = aw @ ?rest"
    by (simp add: assemble_def Let_def)
  moreover have "\<forall>w \<in> set ?rest. warning_type w = REST_VIOLATION \<or> affectedItems w = [event_id ev]"
    using rest_warnings_type[of all "all_athletes ev" "minRestOf ev"]
    by (auto simp: equity_warning_def completeness_warning_def)
  ultimately show ?thesis by blast
qed

text \<open>
  C6 (amended). When the time-boxed scheduler returns a result for an event, every entry
  belongs to a group of at least two athletes of one of the areas, so a group with fewer
  than two athletes is excluded from scheduling; the entries are the ones the scheduler
  gives for the event without those groups, so the other groups and areas are scheduled
  as if the small groups were not there; and unless the window is too short for one
  fight, the warnings begin with one warning for each area that has groups but none
  with two athletes (of type INFO, naming the area), followed only by rest violations and
  warnings about the event as a whole. No warning is given for a small group of an area
  that has a group of at least two athletes.
\<close>

theorem small_groups_excluded:
  assumes run: "generateTimeBoxedSchedule num src ev = Some (Inr r)"
  shows "(\<forall>e \<in> set (entries (generated_schedule r)).
            \<exists>ar \<in> set (areas ev). \<exists>g \<in> set (groups ar).
               2 \<le> length (athletes g) \<and> group_id g = entry_groupId e \<and>
               athlete1Id e \<in> group_athlete_ids g \<and> athlete2Id e \<in> group_athlete_ids g) \<and>
         (r = empty_result ev \<or>
          (\<exists>rest. generated_warnings r =
                    map no_valid_group_warning
                      (filter (\<lambda>ar. groups ar \<noteq> [] \<and> validGroups ar = []) (areas ev)) @ rest \<and>
                  (\<forall>w \<in> set rest. warning_type w = REST_VIOLATION \<or> affectedItems w = [event_id ev]))) \<and>
         map_option (map_sum id (\<lambda>r. entries (generated_schedule r)))
           (generateTimeBoxedSchedule num src (without_small_groups ev)) =
         Some (Inr (entries (generated_schedule r)))"
proof -
  have third: "map_option (map_sum id (\<lambda>r. entries (generated_schedule r)))
           (generateTimeBoxedSchedule num src (without_small_groups ev)) =
         Some (Inr (entries (generated_schedule r)))"
    by (simp add: entries_without_small_groups run)
  from generate_Inr[OF run] obtain ws we where
    c: "(ws + fightDuration ev > we \<and> r = empty_result ev) \<or>
            (\<not> ws + fightDuration ev > we \<and>
             (\<exists>all aw k tbs.
                schedule_areas src (fightDuration ev) (rotationTime ev) ws we (minRestOf ev) (areas ev)
                  ([], [], 0) = Some (Inr (all, aw, k)) \<and>
                computeTimeBoxedStats num all ev = Inr tbs \<and>
                r = assemble ev ws we all aw tbs))"
    by blast
  from c have "(\<forall>e \<in> set (entries (generated_schedule r)).
            \<exists>ar \<in> set (areas ev). \<exists>g \<in> set (groups ar).
               2 \<le> length (athletes g) \<and> group_id g = entry_groupId e \<and>
               athlete1Id e \<in> group_athlete_ids g \<and> athlete2Id e \<in> group_athlete_ids g) \<and>
         (r = empty_result ev \<or>
          (\<exists>rest. generated_warnings r =
                    map no_valid_group_warning
                      (filter (\<lambda>ar. groups ar \<noteq> [] \<and> validGroups ar = []) (areas ev)) @ rest \<and>
                  (\<forall>w \<in> set rest. warning_type w = REST_VIOLATION \<or> affectedItems w = [event_id ev])))"
  proof (elim disjE conjE exE)
    assume "r = empty_result ev"
    then show ?thesis by simp
  next
    fix all aw k tbs
    assume sa: "schedule_areas src (fightDuration ev) (rotationTime ev) ws we (minRestOf ev) (areas ev)
                  ([], [], 0) = Some (Inr (all, aw, k))"
      and r: "r = assemble ev ws we all aw tbs"
    from schedule_areas_structure[OF sa] obtain ess where
      all: "all = concat ess" and
      l: "list_all2 (\<lambda>ar es. es = [] \<or>
                        (\<exists>k k'. scheduleTimeBoxedMatchesForArea src k ar (validGroups ar)
                           (fightDuration ev) (rotationTime ev) ws we (minRestOf ev) =
                             Some (Inr (es, k')))) (areas ev) ess"
      and aw: "aw = map no_valid_group_warning
                (filter (\<lambda>ar. length (groups ar) \<noteq> 0 \<and> length (validGroups ar) = 0) (areas ev))"
      by auto
    have first: "\<exists>ar \<in> set (areas ev). \<exists>g \<in> set (groups ar).
               2 \<le> length (athletes g) \<and> group_id g = entry_groupId e \<and>
               athlete1Id e \<in> group_athlete_ids g \<and> athlete2Id e \<in> group_athlete_ids g"
      if e: "e \<in> set all" for e
    proof -
      from e obtain es where es: "es \<in> set ess" "e \<in> set es" by (auto simp: all)
      from list_all2_right_elem[OF l es(1)] es(2) obtain ar k k' where
        ar: "ar \<in> set (areas ev)" and
        "scheduleTimeBoxedMatchesForArea src k ar (validGroups ar)
           (fightDuration ev) (rotationTime ev) ws we (minRestOf ev) = Some (Inr (es, k'))" by auto
      from area_entries_from_groups[OF this(2)] es(2) obtain g where
        g: "g \<in> set (validGroups ar)" "group_id g = entry_groupId e"
           "athlete1Id e \<in> group_athlete_ids g" "athlete2Id e \<in> group_athlete_ids g" by blast
      from g(1) have "g \<in> set (groups ar)" "2 \<le> length (athletes g)"
        by (simp_all add: validGroups_def)
      with ar g show ?thesis by blast
    qed
    from assemble_warnings[of ev ws we all aw tbs] obtain rest where
      "generated_warnings r = aw @ rest"
      "\<forall>w \<in> set rest. warning_type w = REST_VIOLATION \<or> affectedItems w = [event_id ev]"
      unfolding r by blast
    then have second: "\<exists>rest. generated_warnings r =
                    map no_valid_group_warning
                      (filter (\<lambda>ar. groups ar \<noteq> [] \<and> validGroups ar = []) (areas ev)) @ rest \<and>
                  (\<forall>w \<in> set rest. warning_type w = REST_VIOLATION \<or> affectedItems w = [event_id ev])"
      by (intro exI[of _ rest]) (simp add: aw)
    from first second show ?thesis by (simp add: r)
  qed
  with third show ?thesis by blast
qed

text \<open>
  The event with the areas a1 (groups [x, y] and [z]) and a2 (group [w]): the two entries
  are matches of the group g1, the only warning is the one for the area a2, and the
  entries are those of the event without the groups [z] and [w].
\<close>

lemma mixed_event_run:
  "map_option (map_sum id (\<lambda>r. (map entry_summary (entries (generated_schedule r)),
                                  generated_warnings r)))
     (generateTimeBoxedSchedule decimal_Number sample_ids mixed_event) =
   Some (Inr ([(''g1'', ''x'', ''y''), (''g1'', ''x'', ''y'')],
              [no_valid_group_warning (area_of ''a2'' [group_of ''g3'' [''w'']])]))"
  by code_simp

theorem small_groups_excluded_witness:
  "\<exists>r. generateTimeBoxedSchedule decimal_Number sample_ids mixed_event = Some (Inr r) \<and>
       map entry_summary (entries (generated_schedule r)) =
         [(''g1'', ''x'', ''y''), (''g1'', ''x'', ''y'')] \<and>
       list_all (\<lambda>e. entry_groupId e = ''g1'') (entries (generated_schedule r)) \<and>
       generated_warnings r = [no_valid_group_warning (area_of ''a2'' [group_of ''g3'' [''w'']])] \<and>
       map_option (map_sum id (\<lambda>r. entries (generated_schedule r)))
         (generateTimeBoxedSchedule decimal_Number sample_ids (without_small_groups mixed_event)) =
       Some (Inr (entries (generated_schedule r)))"
proof -
  from mixed_event_run obtain r where
    run: "generateTimeBoxedSchedule decimal_Number sample_ids mixed_event = Some (Inr r)" and
    v: "(map entry_summary (entries (generated_schedule r)), generated_warnings r) =
        ([(''g1'', ''x'', ''y''), (''g1'', ''x'', ''y'')],
         [no_valid_group_warning (area_of ''a2'' [group_of ''g3'' [''w'']])])"
    by (rule returned_with)
  from small_groups_excluded[OF run]
  have first: "\<forall>e \<in> set (entries (generated_schedule r)).
            \<exists>ar \<in> set (areas mixed_event). \<exists>g \<in> set (groups ar).
               2 \<le> length (athletes g) \<and> group_id g = entry_groupId e \<and>
               athlete1Id e \<in> group_athlete_ids g \<and> athlete2Id e \<in> group_athlete_ids g"
    and third: "map_option (map_sum id (\<lambda>r. entries (generated_schedule r)))
         (generateTimeBoxedSchedule decimal_Number sample_ids (without_small_groups mixed_event)) =
       Some (Inr (entries (generated_schedule r)))"
    by blast+
  from first have "list_all (\<lambda>e. entry_groupId e = ''g1'') (entries (generated_schedule r))"
    by (auto simp: list_all_iff mixed_event_def event_of_def area_of_def group_of_def)
  with run v third show ?thesis by (intro exI[of _ r]) simp
qed

text \<open>
  The claim as stated fails for the small event: its group g2 has the single athlete z
  and is in the same area as the group [x, y]; the result has two entries and no warning
  at all, so none for the group g2.
\<close>

theorem small_group_without_warning_counterexample:
  "map_option (map_sum id (\<lambda>r. (map entry_summary (entries (generated_schedule r)),
                                  generated_warnings r)))
     (generateTimeBoxedSchedule decimal_Number sample_ids small_event) =
   Some (Inr ([(''g1'', ''x'', ''y''), (''g1'', ''x'', ''y'')], [])) \<and>
   map (\<lambda>g. (group_id g, length (athletes g))) (all_groups small_event) =
     [(''g1'', 2), (''g2'', 1)]"
  by code_simp

section \<open>C9: the result depends on the id source only in the ids\<close>

text \<open>
  Two states that differ only in the ids of their entries stay so under a pass of the
  loop with two different id sources; hence the loop and the area function give, for any
  two id sources, results that differ only in the ids, and return or not together.
\<close>

lemma erase_state_fields:
  assumes "erase_state s = erase_state s2"
  shows "currentTime s2 = currentTime s" "loop_sequenceNumber s2 = loop_sequenceNumber s"
    "groupStates s2 = groupStates s" "idCounter s2 = idCounter s"
    "map erase_entry (loop_entries s2) = map erase_entry (loop_entries s)"
proof -
  from arg_cong[OF assms, of currentTime] show "currentTime s2 = currentTime s"
    by (simp add: erase_state_def)
  from arg_cong[OF assms, of loop_sequenceNumber] show "loop_sequenceNumber s2 = loop_sequenceNumber s"
    by (simp add: erase_state_def)
  from arg_cong[OF assms, of groupStates] show "groupStates s2 = groupStates s"
    by (simp add: erase_state_def)
  from arg_cong[OF assms, of idCounter] show "idCounter s2 = idCounter s"
    by (simp add: erase_state_def)
  from arg_cong[OF assms, of loop_entries] show "map erase_entry (loop_entries s2) = map erase_entry (loop_entries s)"
    by (simp add: erase_state_def)
qed

lemma erase_state_eqI:
  assumes "currentTime s2 = currentTime s" "loop_sequenceNumber s2 = loop_sequenceNumber s"
    "groupStates s2 = groupStates s" "idCounter s2 = idCounter s"
    "map erase_entry (loop_entries s2) = map erase_entry (loop_entries s)"
  shows "erase_state s = erase_state s2"
  using assms by (cases s; cases s2) (simp add: erase_state_def)

lemma erase_new_entry:
  assumes "erase_state s = erase_state s2"
  shows "erase_entry (new_entry src ar gid c fd s) = erase_entry (new_entry src' ar gid c fd s2)"
  using erase_state_fields[OF assms] by (simp add: new_entry_def erase_entry_def)

lemma commit_match_cases:
  "commit_match src ar gid st c fd rot mr s =
     (if map_of (athleteStates st) (athlete_id (athlete1 c)) = None \<or>
         map_of (AList.update (athlete_id (athlete1 c))
                   (after_match (athlete_id (athlete2 c)) (currentTime s + fd) mr
                      (the (map_of (athleteStates st) (athlete_id (athlete1 c)))))
                   (athleteStates st)) (athlete_id (athlete2 c)) = None
      then Inl TypeError
      else Inr (s\<lparr>currentTime := currentTime s + fd + rot,
              loop_sequenceNumber := loop_sequenceNumber s + 1,
              groupStates := AList.update gid
                 (st\<lparr>athleteStates := states_after (athlete_id (athlete1 c)) (athlete_id (athlete2 c))
                                         (currentTime s + fd) mr (athleteStates st),
                     totalMatches := totalMatches st + 1,
                     lastScheduledTime := currentTime s\<rparr>) (groupStates s),
              loop_entries := loop_entries s @ [new_entry src ar gid c fd s],
              idCounter := idCounter s + 2\<rparr>))"
  by (auto simp: commit_match_def new_entry_def states_after_def Let_def split: option.splits)

lemma commit_match_erase:
  assumes h: "erase_state s = erase_state s2"
  shows "map_sum id erase_state (commit_match src ar gid st c fd rot mr s) =
         map_sum id erase_state (commit_match src' ar gid st c fd rot mr s2)"
proof -
  note F = erase_state_fields[OF h]
  have "erase_state (s\<lparr>currentTime := t, loop_sequenceNumber := n, groupStates := G,
              loop_entries := loop_entries s @ [new_entry src ar gid c fd s], idCounter := k\<rparr>) =
        erase_state (s2\<lparr>currentTime := t, loop_sequenceNumber := n, groupStates := G,
              loop_entries := loop_entries s2 @ [new_entry src' ar gid c fd s2], idCounter := k\<rparr>)"
    for t n G k
    apply (rule erase_state_eqI)
        apply (simp_all add: F)
    apply (rule erase_new_entry[OF h, symmetric])
    done
  then show ?thesis
    unfolding commit_match_cases[of src] commit_match_cases[of src'] F by simp
qed

lemma loop_body_erase:
  assumes h: "erase_state s = erase_state s2"
  shows "map_sum id erase_flow (loop_body src ar gs fd rot we mr s) =
         map_sum id erase_flow (loop_body src' ar gs fd rot we mr s2)"
proof -
  note F = erase_state_fields[OF h]
  have C: "erase_state (s\<lparr>currentTime := n\<rparr>) = erase_state (s2\<lparr>currentTime := n\<rparr>)" for n
    by (rule erase_state_eqI) (simp_all add: F)
  have M: "map_sum id erase_flow
             (case commit_match src ar gid st c fd rot mr s of
                Inl e \<Rightarrow> Inl e | Inr s' \<Rightarrow> Inr (Continue s')) =
           map_sum id erase_flow
             (case commit_match src' ar gid st c fd rot mr s2 of
                Inl e \<Rightarrow> Inl e | Inr s' \<Rightarrow> Inr (Continue s'))" for gid st c
    using commit_match_erase[OF h, of src ar gid st c fd rot mr src']
    by (cases "commit_match src ar gid st c fd rot mr s";
        cases "commit_match src' ar gid st c fd rot mr s2") simp_all
  show ?thesis
  proof (cases "selectNextGroup gs (groupStates s) (currentTime s) mr")
    case (Inl e)
    then show ?thesis by (simp add: loop_body_def F)
  next
    case (Inr sel)
    show ?thesis
    proof (cases "sel = None \<or> sel = Some []")
      case True
      with Inr show ?thesis by (auto simp: loop_body_def F Let_def h C)
    next
      case False
      then obtain gid where sel: "sel = Some gid" "gid \<noteq> []" by auto
      show ?thesis
      proof (cases "find (\<lambda>g. group_id g = gid) gs")
        case None
        with Inr sel show ?thesis by (simp add: loop_body_def F Let_def)
      next
        case g: (Some g)
        show ?thesis
        proof (cases "map_of (groupStates s) gid")
          case None
          with Inr sel g show ?thesis by (simp add: loop_body_def F Let_def)
        next
          case st: (Some st)
          show ?thesis
          proof (cases "findBestPairForGroup g st (currentTime s) mr")
            case (Inl e)
            with Inr sel g st show ?thesis by (simp add: loop_body_def F Let_def)
          next
            case bp: (Inr bp)
            show ?thesis
            proof (cases bp)
              case None
              with Inr sel g st bp show ?thesis by (simp add: loop_body_def F Let_def h)
            next
              case (Some c)
              with Inr sel g st bp M[of gid st c] show ?thesis
                by (simp add: loop_body_def F Let_def)
            qed
          qed
        qed
      qed
    qed
  qed
qed

lemma erase_flow_Break:
  "erase_flow fl2 = erase_flow (Break t) \<Longrightarrow> \<exists>t2. fl2 = Break t2 \<and> erase_state t2 = erase_state t"
  by (cases fl2) simp_all

lemma erase_flow_Continue:
  "erase_flow fl2 = erase_flow (Continue t) \<Longrightarrow> \<exists>t2. fl2 = Continue t2 \<and> erase_state t2 = erase_state t"
  by (cases fl2) simp_all

lemma loop_body_erase_Inl:
  assumes "erase_state s = erase_state s2" "loop_body src ar gs fd rot we mr s = Inl e"
  shows "loop_body src' ar gs fd rot we mr s2 = Inl e"
  using loop_body_erase[OF assms(1), of src ar gs fd rot we mr src'] assms(2)
  by (cases "loop_body src' ar gs fd rot we mr s2") simp_all

lemma loop_body_erase_Inr:
  assumes "erase_state s = erase_state s2" "loop_body src ar gs fd rot we mr s = Inr fl"
  shows "\<exists>fl2. loop_body src' ar gs fd rot we mr s2 = Inr fl2 \<and> erase_flow fl2 = erase_flow fl"
  using loop_body_erase[OF assms(1), of src ar gs fd rot we mr src'] assms(2)
  by (cases "loop_body src' ar gs fd rot we mr s2") simp_all

lemma timeBoxedLoop_erase_Some:
  assumes run: "timeBoxedLoop src ar gs fd rot we mr s = Some y"
    and h: "erase_state s = erase_state s2"
  shows "\<exists>y2. timeBoxedLoop src' ar gs fd rot we mr s2 = Some y2 \<and>
              map_sum id erase_state y2 = map_sum id erase_state y"
proof -
  let ?P = "\<lambda>src0 ar0 gs0 fd0 rot0 we0 mr0 (s::loop_state) (y::error + loop_state).
          \<forall>s2. erase_state s = erase_state s2 \<longrightarrow>
            (\<exists>y2. timeBoxedLoop src' ar0 gs0 fd0 rot0 we0 mr0 s2 = Some y2 \<and>
                   map_sum id erase_state y2 = map_sum id erase_state y)"
  have "?P src ar gs fd rot we mr s y"
  proof (rule timeBoxedLoop.raw_induct[where P = ?P, OF _ run])
    fix loop src0 ar0 gs0 fd0 rot0 we0 mr0 s y
    assume IH: "\<And>src0 ar0 gs0 fd0 rot0 we0 mr0 s y.
                  loop src0 ar0 gs0 fd0 rot0 we0 mr0 s = Some y \<Longrightarrow> ?P src0 ar0 gs0 fd0 rot0 we0 mr0 s y"
      and body: "(if currentTime s + fd0 \<le> we0
           then case loop_body src0 ar0 gs0 fd0 rot0 we0 mr0 s of
                  Inl e \<Rightarrow> Some (Inl e)
                | Inr (Break s') \<Rightarrow> Some (Inr s')
                | Inr (Continue s') \<Rightarrow> loop src0 ar0 gs0 fd0 rot0 we0 mr0 s'
           else Some (Inr s)) = Some y"
    show "?P src0 ar0 gs0 fd0 rot0 we0 mr0 s y"
    proof (intro allI impI)
      fix s2 assume h: "erase_state s = erase_state s2"
      note F = erase_state_fields[OF h]
      show "\<exists>y2. timeBoxedLoop src' ar0 gs0 fd0 rot0 we0 mr0 s2 = Some y2 \<and>
                   map_sum id erase_state y2 = map_sum id erase_state y"
      proof (cases "currentTime s + fd0 \<le> we0")
        case False
        with body have y: "y = Inr s" by simp
        from False F have "timeBoxedLoop src' ar0 gs0 fd0 rot0 we0 mr0 s2 = Some (Inr s2)"
          by (subst timeBoxedLoop.simps) simp
        with y h show ?thesis by simp
      next
        case True
        then have True2: "currentTime s2 + fd0 \<le> we0" by (simp add: F)
        show ?thesis
        proof (cases "loop_body src0 ar0 gs0 fd0 rot0 we0 mr0 s")
          case (Inl e)
          with body True have y: "y = Inl e" by simp
          from loop_body_erase_Inl[OF h Inl, of src'] True2
          have "timeBoxedLoop src' ar0 gs0 fd0 rot0 we0 mr0 s2 = Some (Inl e)"
            by (subst timeBoxedLoop.simps) simp
          with y show ?thesis by simp
        next
          case (Inr fl)
          from loop_body_erase_Inr[OF h Inr, of src'] obtain fl2 where
            fl2: "loop_body src' ar0 gs0 fd0 rot0 we0 mr0 s2 = Inr fl2" "erase_flow fl2 = erase_flow fl"
            by blast
          show ?thesis
          proof (cases fl)
            case (Break t)
            with Inr body True have y: "y = Inr t" by simp
            from erase_flow_Break[OF fl2(2)[unfolded Break]] obtain t2 where
              t2: "fl2 = Break t2" "erase_state t2 = erase_state t" by blast
            from fl2(1) t2(1) True2
            have "timeBoxedLoop src' ar0 gs0 fd0 rot0 we0 mr0 s2 = Some (Inr t2)"
              by (subst timeBoxedLoop.simps) simp
            with y t2(2) show ?thesis by simp
          next
            case (Continue t)
            with Inr body True have l: "loop src0 ar0 gs0 fd0 rot0 we0 mr0 t = Some y" by simp
            from erase_flow_Continue[OF fl2(2)[unfolded Continue]] obtain t2 where
              t2: "fl2 = Continue t2" "erase_state t2 = erase_state t" by blast
            from IH[OF l] have "\<forall>s2. erase_state t = erase_state s2 \<longrightarrow>
                (\<exists>y2. timeBoxedLoop src' ar0 gs0 fd0 rot0 we0 mr0 s2 = Some y2 \<and>
                   map_sum id erase_state y2 = map_sum id erase_state y)" .
            with t2(2)[symmetric] obtain y2 where
              y2: "timeBoxedLoop src' ar0 gs0 fd0 rot0 we0 mr0 t2 = Some y2"
                  "map_sum id erase_state y2 = map_sum id erase_state y"
              by blast
            from fl2(1) t2(1) True2 y2(1)
            have "timeBoxedLoop src' ar0 gs0 fd0 rot0 we0 mr0 s2 = Some y2"
              by (subst timeBoxedLoop.simps) simp
            with y2(2) show ?thesis by simp
          qed
        qed
      qed
    qed
  qed
  with h show ?thesis by blast
qed

lemma timeBoxedLoop_erase:
  assumes h: "erase_state s = erase_state s2"
  shows "map_option (map_sum id erase_state) (timeBoxedLoop src ar gs fd rot we mr s) =
         map_option (map_sum id erase_state) (timeBoxedLoop src' ar gs fd rot we mr s2)"
proof (cases "timeBoxedLoop src ar gs fd rot we mr s")
  case (Some y)
  from timeBoxedLoop_erase_Some[OF this h, of src'] Some show ?thesis by auto
next
  case None
  show ?thesis
  proof (cases "timeBoxedLoop src' ar gs fd rot we mr s2")
    case (Some y)
    from timeBoxedLoop_erase_Some[OF this h[symmetric], of src] None show ?thesis by auto
  next
    case None': None
    with None show ?thesis by simp
  qed
qed

lemma scheduleArea_erase:
  "map_option (map_sum id erase_area_result)
     (scheduleTimeBoxedMatchesForArea src k ar gs fd rot ws we mr) =
   map_option (map_sum id erase_area_result)
     (scheduleTimeBoxedMatchesForArea src' k ar gs fd rot ws we mr)"
proof -
  let ?s = "\<lparr>currentTime = ws, loop_sequenceNumber = 0,
              groupStates = initial_group_states ws gs, loop_entries = [], idCounter = k\<rparr>"
  let ?a = "timeBoxedLoop src ar gs fd rot we mr ?s" and ?b = "timeBoxedLoop src' ar gs fd rot we mr ?s"
  have e: "map_option (map_sum id erase_state) ?a = map_option (map_sum id erase_state) ?b"
    by (rule timeBoxedLoop_erase) simp
  have conv: "map_option (map_sum id erase_area_result)
          (case x of None \<Rightarrow> None | Some (Inl e) \<Rightarrow> Some (Inl e)
           | Some (Inr s) \<Rightarrow> Some (Inr (loop_entries s, idCounter s))) =
        map_option (map_sum id (\<lambda>s. (loop_entries s, idCounter s)))
          (map_option (map_sum id erase_state) x)" for x
    by (cases x; simp add: erase_area_result_def erase_state_def split: sum.splits)
  show ?thesis
    unfolding scheduleTimeBoxedMatchesForArea_def conv e ..
qed


end
